theory Spec2Isabelle
  imports Main "HOL-Library.List_Lexorder" "HOL-Library.Multiset"
begin

section \<open>Strings and the character tables of the runtime\<close>

text \<open>
  A Python \<open>str\<close> is a sequence of Unicode code points; it is modelled as a list of
  natural numbers. \<open>asc\<close> turns an ASCII literal into such a list.
\<close>

type_synonym str = "nat list"

definition asc :: "string \<Rightarrow> str" where
  "asc s = map of_char s"

text \<open>
  \<open>str.isspace\<close> on one code point, which is also what \<open>str.strip()\<close> removes and what
  \<open>\s\<close> matches in a \<open>str\<close> pattern.
\<close>

definition isspace :: "nat \<Rightarrow> bool" where
  "isspace c \<longleftrightarrow>
     (0x09 \<le> c \<and> c \<le> 0x0D) \<or> (0x1C \<le> c \<and> c \<le> 0x20) \<or> c = 0x85 \<or> c = 0xA0 \<or>
     c = 0x1680 \<or> (0x2000 \<le> c \<and> c \<le> 0x200A) \<or> c = 0x2028 \<or> c = 0x2029 \<or>
     c = 0x202F \<or> c = 0x205F \<or> c = 0x3000"

text \<open>
  The simple lower-case mapping that the \<open>re\<close> module applies under \<open>IGNORECASE\<close>.
  The patterns of this program mention only characters of Basic Latin and Latin-1 and
  the ligature U+0152/U+0153. The mapping is given in full on those blocks, and on the
  code points outside them whose lower case lies in them (U+0130, U+0178, U+1E9E, U+212A,
  U+212B); every other code point is mapped to itself, which never produces a character
  that one of the patterns mentions.
\<close>

definition tolower :: "nat \<Rightarrow> nat" where
  "tolower c =
     (if 0x41 \<le> c \<and> c \<le> 0x5A then c + 32
      else if 0xC0 \<le> c \<and> c \<le> 0xDE \<and> c \<noteq> 0xD7 then c + 32
      else if c = 0x130 then 0x69
      else if c = 0x152 then 0x153
      else if c = 0x178 then 0xFF
      else if c = 0x1E9E then 0xDF
      else if c = 0x212A then 0x6B
      else if c = 0x212B then 0xE5
      else c)"

text \<open>
  The \<open>re\<close> module's table of lower-case characters that share an upper case, restricted
  to the entries with a code point below U+0250: \<open>i\<close> with the dotless i, \<open>s\<close> with the
  long s, and the micro sign with the Greek mu.
\<close>

definition ignorecase_fixes :: "nat \<Rightarrow> nat list" where
  "ignorecase_fixes c =
     (if c = 0x69 then [0x131] else if c = 0x131 then [0x69]
      else if c = 0x73 then [0x17F] else if c = 0x17F then [0x73]
      else if c = 0xB5 then [0x3BC] else if c = 0x3BC then [0xB5]
      else [])"

text \<open>
  The remaining tables of the Unicode database (\<open>\d\<close> is \<open>str.isdecimal\<close>, a word
  character for \<open>\b\<close> is \<open>str.isalnum\<close> or the underscore) depend on the version of the
  runtime and are a parameter of the model. \<open>latin1\<close> is the instance that agrees
  with the database on U+0000 to U+00FF; it is used for the concrete runs.
\<close>

record unicodedata =
  isdecimal :: "nat \<Rightarrow> bool"
  isalnum :: "nat \<Rightarrow> bool"

definition latin1 :: unicodedata where
  "latin1 = \<lparr>
     isdecimal = (\<lambda>c. 0x30 \<le> c \<and> c \<le> 0x39),
     isalnum = (\<lambda>c. (0x30 \<le> c \<and> c \<le> 0x39) \<or> (0x41 \<le> c \<and> c \<le> 0x5A) \<or>
        (0x61 \<le> c \<and> c \<le> 0x7A) \<or> c = 0xAA \<or> c = 0xB2 \<or> c = 0xB3 \<or> c = 0xB5 \<or>
        c = 0xB9 \<or> c = 0xBA \<or> (0xBC \<le> c \<and> c \<le> 0xBE) \<or> (0xC0 \<le> c \<and> c \<le> 0xD6) \<or>
        (0xD8 \<le> c \<and> c \<le> 0xF6) \<or> (0xF8 \<le> c \<and> c \<le> 0xFF)) \<rparr>"

subsection \<open>The string methods the program calls\<close>

definition strip :: "str \<Rightarrow> str" where
  "strip s = rev (dropWhile isspace (rev (dropWhile isspace s)))"

text \<open>\<open>s.replace(old, new)\<close> for one-character \<open>old\<close> and \<open>new\<close>.\<close>

definition replace :: "nat \<Rightarrow> nat \<Rightarrow> str \<Rightarrow> str" where
  "replace old new s = map (\<lambda>c. if c = old then new else c) s"

fun join :: "str \<Rightarrow> str list \<Rightarrow> str" where
  "join sep [] = []"
| "join sep [x] = x"
| "join sep (x # y # ys) = x @ sep @ join sep (y # ys)"

section \<open>The regular expressions of the program\<close>

text \<open>
  The forms the program's patterns are built from: literal text, a character set
  (\<open>[...]\<close>, \<open>[^...]\<close>, \<open>\s\<close>, \<open>\d\<close>), \<open>\b\<close>, sequence, alternation, an optional
  part, a repeated character set (\<open>*\<close>, \<open>+\<close>, \<open>{m,}\<close>, \<open>{m}\<close>, greedy or lazy), and a
  capturing group. Every repetition in the source is over a single character set.
\<close>

datatype citem = CChar nat | CRange nat nat | CatSpace | CatDigit

datatype cset = In "citem list" | NotIn "citem list"

datatype greed = Greedy | Lazy

datatype regex =
    Eps
  | Str str
  | Set cset
  | WordB
  | Cat regex regex
  | Alt regex regex
  | Opt regex
  | Rep cset nat "nat option" greed
  | Grp nat regex

definition seq :: "regex list \<Rightarrow> regex" where
  "seq rs = foldr Cat rs Eps"

text \<open>
  A pattern character \<open>c\<close> against an input character \<open>x\<close> under \<open>IGNORECASE\<close>: the
  lower case of \<open>x\<close> is the lower case of \<open>c\<close> or one of its equivalents. A range
  under \<open>IGNORECASE\<close> matches what one of its characters matches. The flag \<open>ic\<close> of
  the functions below says whether \<open>IGNORECASE\<close> is set.
\<close>

definition ci_eq :: "nat \<Rightarrow> nat \<Rightarrow> bool" where
  "ci_eq c x \<longleftrightarrow> tolower x = tolower c \<or> tolower x \<in> set (ignorecase_fixes (tolower c))"

definition chr_match :: "bool \<Rightarrow> nat \<Rightarrow> nat \<Rightarrow> bool" where
  "chr_match ic c x = (if ic then ci_eq c x else x = c)"

fun item_match :: "unicodedata \<Rightarrow> bool \<Rightarrow> citem \<Rightarrow> nat \<Rightarrow> bool" where
  "item_match U ic (CChar c) x = chr_match ic c x"
| "item_match U ic (CRange lo hi) x =
     (if ic then list_ex (\<lambda>c. ci_eq c x) [lo..<Suc hi] else lo \<le> x \<and> x \<le> hi)"
| "item_match U ic CatSpace x = isspace x"
| "item_match U ic CatDigit x = isdecimal U x"

fun cset_match :: "unicodedata \<Rightarrow> bool \<Rightarrow> cset \<Rightarrow> nat \<Rightarrow> bool" where
  "cset_match U ic (In items) x = list_ex (\<lambda>i. item_match U ic i x) items"
| "cset_match U ic (NotIn items) x = (\<not> list_ex (\<lambda>i. item_match U ic i x) items)"

text \<open>
  A matcher state: the character before the current position (for \<open>\b\<close>), the rest of
  the input, and the groups captured so far.
\<close>

type_synonym mstate = "nat option \<times> str \<times> (nat \<rightharpoonup> str)"

definition isword :: "unicodedata \<Rightarrow> nat \<Rightarrow> bool" where
  "isword U c \<longleftrightarrow> isalnum U c \<or> c = 0x5F"

definition at_boundary :: "unicodedata \<Rightarrow> nat option \<Rightarrow> str \<Rightarrow> bool" where
  "at_boundary U p s \<longleftrightarrow>
     (case p of None \<Rightarrow> False | Some c \<Rightarrow> isword U c) \<noteq>
     (case s of [] \<Rightarrow> False | x # _ \<Rightarrow> isword U x)"

fun str_match :: "bool \<Rightarrow> str \<Rightarrow> mstate \<Rightarrow> mstate list" where
  "str_match ic [] st = [st]"
| "str_match ic (c # cs) (p, [], g) = []"
| "str_match ic (c # cs) (p, x # xs, g) =
     (if chr_match ic c x then str_match ic cs (Some x, xs, g) else [])"

text \<open>The states reached by consuming 0, 1, 2, ... leading characters that satisfy \<open>P\<close>.\<close>

fun rep_states :: "(nat \<Rightarrow> bool) \<Rightarrow> mstate \<Rightarrow> mstate list" where
  "rep_states P (p, [], g) = [(p, [], g)]"
| "rep_states P (p, x # xs, g) =
     (p, x # xs, g) # (if P x then rep_states P (Some x, xs, g) else [])"

text \<open>
  \<open>rmatch\<close> lists the states in which a match of the pattern starting in the given
  state can end, in the order in which the backtracking matcher of \<open>re\<close> tries them:
  the head of the list is the match that \<open>re\<close> reports.
\<close>

fun rmatch :: "unicodedata \<Rightarrow> bool \<Rightarrow> regex \<Rightarrow> mstate \<Rightarrow> mstate list" where
  "rmatch U ic Eps st = [st]"
| "rmatch U ic (Str w) st = str_match ic w st"
| "rmatch U ic (Set cs) (p, [], g) = []"
| "rmatch U ic (Set cs) (p, x # xs, g) = (if cset_match U ic cs x then [(Some x, xs, g)] else [])"
| "rmatch U ic WordB (p, s, g) = (if at_boundary U p s then [(p, s, g)] else [])"
| "rmatch U ic (Cat r1 r2) st = concat (map (rmatch U ic r2) (rmatch U ic r1 st))"
| "rmatch U ic (Alt r1 r2) st = rmatch U ic r1 st @ rmatch U ic r2 st"
| "rmatch U ic (Opt r) st = rmatch U ic r st @ [st]"
| "rmatch U ic (Rep cs lo hi gr) st =
     (let every = rep_states (cset_match U ic cs) st;
          upto = (case hi of None \<Rightarrow> every | Some h \<Rightarrow> take (Suc h) every);
          ok = drop lo upto
      in case gr of Greedy \<Rightarrow> rev ok | Lazy \<Rightarrow> ok)"
| "rmatch U ic (Grp n r) (p, s, g) =
     map (\<lambda>(p', s', g'). (p', s', g'(n \<mapsto> take (length s - length s') s)))
       (rmatch U ic r (p, s, g))"

text \<open>
  \<open>re.search\<close>: the first position, from the left, at which the pattern matches. The
  result is the match object, here the captured groups, or \<open>None\<close>.
\<close>

fun search_from ::
  "unicodedata \<Rightarrow> bool \<Rightarrow> regex \<Rightarrow> nat option \<Rightarrow> str \<Rightarrow> (nat \<rightharpoonup> str) option" where
  "search_from U ic r p [] =
     (case rmatch U ic r (p, [], Map.empty) of [] \<Rightarrow> None | (_, _, g) # _ \<Rightarrow> Some g)"
| "search_from U ic r p (x # xs) =
     (case rmatch U ic r (p, x # xs, Map.empty) of
        [] \<Rightarrow> search_from U ic r (Some x) xs
      | (_, _, g) # _ \<Rightarrow> Some g)"

definition re_search ::
  "unicodedata \<Rightarrow> bool \<Rightarrow> regex \<Rightarrow> str \<Rightarrow> (nat \<rightharpoonup> str) option" where
  "re_search U ic r t = search_from U ic r None t"

text \<open>
  \<open>re.sub\<close> without flags, for the two shapes the program uses: a single character set
  replaced by the empty string, and a run \<open>[...]+\<close> of a character set replaced by a
  fixed string.
\<close>

definition re_sub_each :: "unicodedata \<Rightarrow> cset \<Rightarrow> str \<Rightarrow> str" where
  "re_sub_each U cs s = filter (\<lambda>x. \<not> cset_match U False cs x) s"

fun sub_runs :: "(nat \<Rightarrow> bool) \<Rightarrow> str \<Rightarrow> bool \<Rightarrow> str \<Rightarrow> str" where
  "sub_runs P repl inrun [] = []"
| "sub_runs P repl inrun (x # xs) =
     (if P x then (if inrun then [] else repl) @ sub_runs P repl True xs
      else x # sub_runs P repl False xs)"

definition re_sub_runs :: "unicodedata \<Rightarrow> cset \<Rightarrow> str \<Rightarrow> str \<Rightarrow> str" where
  "re_sub_runs U cs repl s = sub_runs (cset_match U False cs) repl False s"

section \<open>Errors\<close>

text \<open>
  \<open>RuntimeError\<close> is the error \<open>extract_text_pdf\<close> raises itself; \<open>External\<close> is an
  exception that escapes from the rasterizer or the OCR engine; \<open>IndexError\<close> and
  \<open>AttributeError\<close> are what indexing an empty string and calling a method on
  \<open>None\<close> raise; \<open>FileNotFoundError\<close> is raised by the main programs.
\<close>

datatype error =
    RuntimeError string
  | External string
  | IndexError
  | AttributeError
  | FileNotFoundError

text \<open>An exception raised by a step ends the function; otherwise the next step runs.\<close>

definition bind_err :: "error + 'a \<Rightarrow> ('a \<Rightarrow> error + 'b) \<Rightarrow> error + 'b" where
  "bind_err x f = (case x of Inl e \<Rightarrow> Inl e | Inr v \<Rightarrow> f v)"

section \<open>Text acquisition (\<open>extract_text_pdf\<close>, the same in both files)\<close>

text \<open>
  The collaborators. \<open>PdfReader\<close> either raises or gives the pages, and
  \<open>page.extract_text()\<close> either raises or gives a text (\<open>None\<close> counts as the empty
  text: both are skipped by \<open>if page_text\<close>). \<open>convert_from_path\<close> and
  \<open>image_to_string\<close> either raise or give their result. Images are numbered.
\<close>

datatype page = PageText str | PageRaises

type_synonym path = "str list"

record world =
  PdfReader :: "path \<Rightarrow> page list option"
  convert_from_path :: "path \<Rightarrow> nat \<Rightarrow> string \<Rightarrow> string + nat list"
  image_to_string :: "nat \<Rightarrow> string \<Rightarrow> string \<Rightarrow> string + str"

text \<open>The calls made to the rasterizer and to the OCR engine, in order.\<close>

datatype call = Rasterize path | Ocr nat

text \<open>
  Lines 38 to 47 of \<open>code.py\<close> (34 to 40 of \<open>ordonnance.py\<close>): the loop over the
  pages, inside the \<open>try\<close>. An exception on any page leaves the \<open>try\<close>.
\<close>

fun text_parts :: "page list \<Rightarrow> str list option" where
  "text_parts [] = Some []"
| "text_parts (PageRaises # ps) = None"
| "text_parts (PageText t # ps) =
     (case text_parts ps of None \<Rightarrow> None
      | Some parts \<Rightarrow> Some (if t \<noteq> [] then t # parts else parts))"

text \<open>
  The stripped, newline-joined text of the structural path, or \<open>None\<close> when an
  exception was caught.
\<close>

definition structural_text :: "world \<Rightarrow> path \<Rightarrow> str option" where
  "structural_text w pdf_path =
     (case PdfReader w pdf_path of None \<Rightarrow> None
      | Some pages \<Rightarrow>
          (case text_parts pages of None \<Rightarrow> None
           | Some parts \<Rightarrow> Some (strip (join [0x0A] parts))))"

text \<open>The loop over the images: one OCR call per image, stopping at the first failure.\<close>

fun ocr_parts :: "world \<Rightarrow> nat list \<Rightarrow> call list \<times> (error + str list)" where
  "ocr_parts w [] = ([], Inr [])"
| "ocr_parts w (img # imgs) =
     (case image_to_string w img ''eng'' ''--oem 3 --psm 6'' of
        Inl e \<Rightarrow> ([Ocr img], Inl (External e))
      | Inr page_txt \<Rightarrow>
          (case ocr_parts w imgs of
             (calls, Inl e) \<Rightarrow> (Ocr img # calls, Inl e)
           | (calls, Inr parts) \<Rightarrow> (Ocr img # calls, Inr (page_txt # parts))))"

definition ocr_fallback ::
  "string option \<Rightarrow> world \<Rightarrow> path \<Rightarrow> call list \<times> (error + str)" where
  "ocr_fallback POPPLER_PATH w pdf_path =
     (case POPPLER_PATH of
        None \<Rightarrow> ([], Inl (RuntimeError ''POPPLER_PATH is not set in .env''))
      | Some pp \<Rightarrow>
          if pp = [] then ([], Inl (RuntimeError ''POPPLER_PATH is not set in .env''))
          else (case convert_from_path w pdf_path 400 pp of
                  Inl e \<Rightarrow> ([Rasterize pdf_path], Inl (External e))
                | Inr images \<Rightarrow>
                    (case ocr_parts w images of
                       (calls, Inl e) \<Rightarrow> (Rasterize pdf_path # calls, Inl e)
                     | (calls, Inr parts) \<Rightarrow>
                         (Rasterize pdf_path # calls, Inr (join [0x0A] parts)))))"

definition extract_text_pdf ::
  "string option \<Rightarrow> world \<Rightarrow> path \<Rightarrow> call list \<times> (error + str)" where
  "extract_text_pdf POPPLER_PATH w pdf_path =
     (case structural_text w pdf_path of
        Some text \<Rightarrow>
          if length text > 30 then ([], Inr text)
          else ocr_fallback POPPLER_PATH w pdf_path
      | None \<Rightarrow> ocr_fallback POPPLER_PATH w pdf_path)"

section \<open>Client fields (\<open>code.py\<close>)\<close>

text \<open>
  \<open>format_number_2digit_groups\<close>: \<open>digits[0]\<close> raises on the empty string; the groups
  are the slices \<open>digits[i:i+2]\<close> for \<open>i\<close> in \<open>range(1, len(digits), 2)\<close>.
\<close>

definition format_number_2digit_groups :: "str \<Rightarrow> error + str" where
  "format_number_2digit_groups digits =
     (case digits of
        [] \<Rightarrow> Inl IndexError
      | first # _ \<Rightarrow>
          (let groups = map (\<lambda>i. take 2 (drop i digits)) (filter odd [1..<length digits])
           in Inr (join [0x20] ([first] # groups))))"

text \<open>\<open>m.group(n).strip()\<close>: a group that took no part in the match is \<open>None\<close>.\<close>

definition group_strip :: "(nat \<rightharpoonup> str) \<Rightarrow> nat \<Rightarrow> error + str" where
  "group_strip m n = (case m n of None \<Rightarrow> Inl AttributeError | Some s \<Rightarrow> Inr (strip s))"

text \<open>Lines 93 and 94 of \<open>code.py\<close>, 68 and 69 of \<open>ordonnance.py\<close>.\<close>

definition clean_spaces :: "unicodedata \<Rightarrow> str \<Rightarrow> str" where
  "clean_spaces U text =
     re_sub_runs U (In [CChar 0x20, CChar 0x09]) [0x20] (replace 0xA0 0x20 text)"

text \<open>\<open>Mon\s+num[e\'e]ro\s*[:\-]?\s*([0-9][0-9 \-]{10,})\<close>\<close>

definition num_re :: regex where
  "num_re = seq
     [Str (asc ''Mon''), Rep (In [CatSpace]) 1 None Greedy,
      Str (asc ''num''), Set (In [CChar 0x65, CChar 0xE9]), Str (asc ''ro''),
      Rep (In [CatSpace]) 0 None Greedy,
      Opt (Set (In [CChar 0x3A, CChar 0x2D])),
      Rep (In [CatSpace]) 0 None Greedy,
      Grp 1 (seq [Set (In [CRange 0x30 0x39]),
                  Rep (In [CRange 0x30 0x39, CChar 0x20, CChar 0x2D]) 10 None Greedy])]"

text \<open>\<open>Mon\s+nom\s+ou\s+celui\s+de\s+mon\s+ayant\s+droit\s*[:\-]?\s*([^\n]+)\<close>\<close>

definition name_re :: regex where
  "name_re = seq
     [Str (asc ''Mon''), Rep (In [CatSpace]) 1 None Greedy,
      Str (asc ''nom''), Rep (In [CatSpace]) 1 None Greedy,
      Str (asc ''ou''), Rep (In [CatSpace]) 1 None Greedy,
      Str (asc ''celui''), Rep (In [CatSpace]) 1 None Greedy,
      Str (asc ''de''), Rep (In [CatSpace]) 1 None Greedy,
      Str (asc ''mon''), Rep (In [CatSpace]) 1 None Greedy,
      Str (asc ''ayant''), Rep (In [CatSpace]) 1 None Greedy,
      Str (asc ''droit''),
      Rep (In [CatSpace]) 0 None Greedy,
      Opt (Set (In [CChar 0x3A, CChar 0x2D])),
      Rep (In [CatSpace]) 0 None Greedy,
      Grp 1 (Rep (NotIn [CChar 0x0A]) 1 None Greedy)]"

text \<open>
  Lines 93 to 115: the number. The first component of the result lists the arguments
  with which \<open>format_number_2digit_groups\<close> was called.
\<close>

definition client_number_of ::
  "unicodedata \<Rightarrow> str \<Rightarrow> str list \<times> (error + str option)" where
  "client_number_of U text =
     (let t = clean_spaces U text;
          num_match = re_search U True num_re t
      in case num_match of
           None \<Rightarrow> ([], Inr None)
         | Some m \<Rightarrow>
             (case group_strip m 1 of
                Inl e \<Rightarrow> ([], Inl e)
              | Inr client_number \<Rightarrow>
                  if client_number \<noteq> [] then
                    (let digits = re_sub_each U (NotIn [CatDigit]) client_number
                     in if length digits \<ge> 15 then
                          (let digits = take 15 digits
                           in ([digits],
                               case format_number_2digit_groups digits of
                                 Inl e \<Rightarrow> Inl e
                               | Inr formatted \<Rightarrow> Inr (Some formatted)))
                        else
                          ([], Inr (Some (strip (re_sub_each U
                                 (NotIn [CRange 0x30 0x39, CChar 0x20]) client_number)))))
                  else ([], Inr (Some client_number))))"

text \<open>Lines 118 to 124: the name, searched in the text as it was given.\<close>

definition client_name_of :: "unicodedata \<Rightarrow> str \<Rightarrow> error + str option" where
  "client_name_of U text =
     (case re_search U True name_re text of
        None \<Rightarrow> Inr None
      | Some m \<Rightarrow> (case group_strip m 1 of Inl e \<Rightarrow> Inl e | Inr s \<Rightarrow> Inr (Some s)))"

text \<open>The result is the pair \<open>(client_name, client_number)\<close>.\<close>

definition extract_client_info ::
  "unicodedata \<Rightarrow> str \<Rightarrow> error + (str option \<times> str option)" where
  "extract_client_info U text =
     (case snd (client_number_of U text) of
        Inl e \<Rightarrow> Inl e
      | Inr client_number \<Rightarrow>
          (case client_name_of U text of
             Inl e \<Rightarrow> Inl e
           | Inr client_name \<Rightarrow> Inr (client_name, client_number)))"

section \<open>Prescription fields (\<open>ordonnance.py\<close>)\<close>

record ordonnance =
  title :: "str option"
  full_name :: "str option"
  birthdate :: "str option"
  eye_right :: "str option"
  eye_left :: "str option"

text \<open>The five alternatives of the first group of the person pattern.\<close>

definition person_titles :: "str list" where
  "person_titles = [asc ''Monsieur'', asc ''Madame'', asc ''Mlle'', asc ''M.'', asc ''Enfant'']"

text \<open>
  \<open>\b(Monsieur|Madame|Mlle|M\.|Enfant)\s+([A-Za-z\`A-\"y' \-]+?)\s*\((\d{2}/\d{2}/\d{4})\)\<close>,
  where the third range of the name class runs from U+00C0 to U+00FF.
\<close>

definition person_re :: regex where
  "person_re = seq
     [WordB,
      Grp 1 (foldr Alt (map Str (butlast person_titles)) (Str (last person_titles))),
      Rep (In [CatSpace]) 1 None Greedy,
      Grp 2 (Rep (In [CRange 0x41 0x5A, CRange 0x61 0x7A, CRange 0xC0 0xFF,
                      CChar 0x27, CChar 0x20, CChar 0x2D]) 1 None Lazy),
      Rep (In [CatSpace]) 0 None Greedy,
      Str (asc ''(''),
      Grp 3 (seq [Rep (In [CatDigit]) 2 (Some 2) Greedy, Str (asc ''/''),
                  Rep (In [CatDigit]) 2 (Some 2) Greedy, Str (asc ''/''),
                  Rep (In [CatDigit]) 4 (Some 4) Greedy]),
      Str (asc '')'')]"

text \<open>
  \<open>(?:Oeil|\OEil)\s*Droit\s*[:\-]?\s*([+\-]?\d+(?:[.,]\d+)?)\<close> and the same with
  \<open>Gauche\<close>; the second alternative starts with the ligature U+0152.
\<close>

definition eye_re :: "str \<Rightarrow> regex" where
  "eye_re side = seq
     [Alt (Str (asc ''Oeil'')) (Str (0x152 # asc ''il'')),
      Rep (In [CatSpace]) 0 None Greedy,
      Str side,
      Rep (In [CatSpace]) 0 None Greedy,
      Opt (Set (In [CChar 0x3A, CChar 0x2D])),
      Rep (In [CatSpace]) 0 None Greedy,
      Grp 1 (seq [Opt (Set (In [CChar 0x2B, CChar 0x2D])),
                  Rep (In [CatDigit]) 1 None Greedy,
                  Opt (seq [Set (In [CChar 0x2E, CChar 0x2C]),
                            Rep (In [CatDigit]) 1 None Greedy])])]"

text \<open>\<open>m.group(1).replace(",", ".")\<close>\<close>

definition group_replace :: "(nat \<rightharpoonup> str) \<Rightarrow> nat \<Rightarrow> error + str" where
  "group_replace m n =
     (case m n of None \<Rightarrow> Inl AttributeError | Some s \<Rightarrow> Inr (replace 0x2C 0x2E s))"

text \<open>\<open>f(m) if m else None\<close>\<close>

definition if_match ::
  "(nat \<rightharpoonup> str) option \<Rightarrow> ((nat \<rightharpoonup> str) \<Rightarrow> error + str) \<Rightarrow> error + str option" where
  "if_match m f =
     (case m of None \<Rightarrow> Inr None
      | Some g \<Rightarrow> (case f g of Inl e \<Rightarrow> Inl e | Inr s \<Rightarrow> Inr (Some s)))"

definition parse_ordonnance :: "unicodedata \<Rightarrow> str \<Rightarrow> error + ordonnance" where
  "parse_ordonnance U text =
     (let t = clean_spaces U text;
          person_match = re_search U True person_re t
      in
      bind_err (if_match person_match (\<lambda>m. group_strip m 1)) (\<lambda>v_title.
      bind_err (if_match person_match (\<lambda>m. group_strip m 2)) (\<lambda>v_full_name.
      bind_err (if_match person_match (\<lambda>m. group_strip m 3)) (\<lambda>v_birthdate.
        (let od_match = re_search U True (eye_re (asc ''Droit'')) t;
             og_match = re_search U True (eye_re (asc ''Gauche'')) t
         in
         bind_err (if_match od_match (\<lambda>m. group_replace m 1)) (\<lambda>v_eye_right.
         bind_err (if_match og_match (\<lambda>m. group_replace m 1)) (\<lambda>v_eye_left.
           Inr \<lparr>title = v_title, full_name = v_full_name, birthdate = v_birthdate,
                eye_right = v_eye_right, eye_left = v_eye_left\<rparr>)))))))"

section \<open>Processing one document and the main programs\<close>

text \<open>
  The key \<open>file\<close> of the result dictionaries is the field \<open>pdf_file\<close> of a client
  record and the field \<open>ord_file\<close> of a prescription record.
\<close>



record client =
  pdf_file :: str
  client_name :: "str option"
  client_number :: "str option"









section \<open>Auxiliary notions for the proofs\<close>

text \<open>
  The groups that every match of a pattern sets, and the groups that a match of it may
  set.
\<close>

fun must_set :: "regex \<Rightarrow> nat set" where
  "must_set (Grp n r) = insert n (must_set r)"
| "must_set (Cat a b) = must_set a \<union> must_set b"
| "must_set (Alt a b) = must_set a \<inter> must_set b"
| "must_set r = {}"

fun may_set :: "regex \<Rightarrow> nat set" where
  "may_set (Grp n r) = insert n (may_set r)"
| "may_set (Cat a b) = may_set a \<union> may_set b"
| "may_set (Alt a b) = may_set a \<union> may_set b"
| "may_set (Opt r) = may_set r"
| "may_set r = {}"

text \<open>
  The strings that a pattern can consume, whatever the position: the language of the
  pattern. A match of the matcher consumes a string of this language.
\<close>

fun accepts :: "unicodedata \<Rightarrow> bool \<Rightarrow> regex \<Rightarrow> str \<Rightarrow> bool" where
  "accepts U ic Eps u \<longleftrightarrow> u = []"
| "accepts U ic (Str w) u \<longleftrightarrow> list_all2 (chr_match ic) w u"
| "accepts U ic (Set cs) u \<longleftrightarrow> (\<exists>x. u = [x] \<and> cset_match U ic cs x)"
| "accepts U ic WordB u \<longleftrightarrow> u = []"
| "accepts U ic (Cat a b) u \<longleftrightarrow> (\<exists>v w. u = v @ w \<and> accepts U ic a v \<and> accepts U ic b w)"
| "accepts U ic (Alt a b) u \<longleftrightarrow> accepts U ic a u \<or> accepts U ic b u"
| "accepts U ic (Opt r) u \<longleftrightarrow> u = [] \<or> accepts U ic r u"
| "accepts U ic (Rep cs lo hi gr) u \<longleftrightarrow>
     lo \<le> length u \<and> (case hi of None \<Rightarrow> True | Some h \<Rightarrow> length u \<le> h) \<and>
     (\<forall>x\<in>set u. cset_match U ic cs x)"
| "accepts U ic (Grp n r) u \<longleftrightarrow> accepts U ic r u"

text \<open>The strings that group \<open>n\<close> of a pattern can capture.\<close>

fun captures :: "unicodedata \<Rightarrow> bool \<Rightarrow> regex \<Rightarrow> nat \<Rightarrow> str \<Rightarrow> bool" where
  "captures U ic (Grp m r) n v \<longleftrightarrow> (m = n \<and> accepts U ic r v) \<or> captures U ic r n v"
| "captures U ic (Cat a b) n v \<longleftrightarrow> captures U ic a n v \<or> captures U ic b n v"
| "captures U ic (Alt a b) n v \<longleftrightarrow> captures U ic a n v \<or> captures U ic b n v"
| "captures U ic (Opt r) n v \<longleftrightarrow> captures U ic r n v"
| "captures U ic r n v \<longleftrightarrow> False"

text \<open>The inputs of the concrete runs.\<close>

definition w_scan :: world where
  "w_scan = \<lparr>PdfReader = (\<lambda>p. Some [PageText (asc ''scan'')]),
            convert_from_path = (\<lambda>p dpi pp. Inr [0, 1]),
            image_to_string = (\<lambda>img lang cfg.
              Inr (if img = 0 then asc ''page one'' else asc ''page two''))\<rparr>"

definition w_text :: world where
  "w_text = \<lparr>PdfReader = (\<lambda>p. Some [PageText (asc ''  This page has an embedded text layer.''),
                                   PageText [], PageText (asc ''Second page. '')]),
            convert_from_path = (\<lambda>p dpi pp. Inl ''no poppler''),
            image_to_string = (\<lambda>img lang cfg. Inl ''no tesseract'')\<rparr>"

definition embedded_text :: str where
  "embedded_text = asc ''This page has an embedded text layer.'' @ [0x0A] @ asc ''Second page.''"

definition number_text :: str where
  "number_text = asc ''Mon num'' @ [0xE9] @ asc ''ro : 748012345678901234''"

definition sep_number_text :: str where
  "sep_number_text = asc ''Mon numero : 2-74-01-12-345-678-90''"

definition short_number_text :: str where
  "short_number_text = asc ''MON  NUMERO - 2 74 01 12-345 ''"

definition enfant_text :: str where
  "enfant_text = asc ''Enfant Dupont (01/02/2010)''"

definition madame_text :: str where
  "madame_text = asc ''Madame Dupont''"

definition madame_date_text :: str where
  "madame_date_text = asc ''MADAME  Dupont (03/04/1980)''"

definition eyes_text :: str where
  "eyes_text = asc ''Oeil Droit : -1,25'' @ [0x0A] @ asc ''Oeil Gauche : +0.50''"

definition eyes_text_left :: str where
  "eyes_text_left = 0x152 # asc ''IL GAUCHE: -1,25''"




section \<open>Properties of the string methods\<close>

lemma dropWhile_filter_dropWhile:
  "dropWhile P (filter Q (dropWhile P s)) = dropWhile P (filter Q s)"
  by (induction s) auto

lemma rstrip_Cons:
  "rev (dropWhile P (rev (x # xs))) =
     (if \<forall>y\<in>set xs. P y then (if P x then [] else [x]) else x # rev (dropWhile P (rev xs)))"
  by (simp add: dropWhile_append)

lemma rstrip_lstrip_commute:
  "rev (dropWhile P (rev (dropWhile P s))) = dropWhile P (rev (dropWhile P (rev s)))"
proof (induction s)
  case Nil
  then show ?case by simp
next
  case (Cons x xs)
  show ?case
  proof (cases "P x")
    case True
    show ?thesis
    proof (cases "\<forall>y\<in>set xs. P y")
      case all: True
      have l: "dropWhile P (x # xs) = []" using True all by simp
      have r: "rev (dropWhile P (rev (x # xs))) = []" using True all by simp
      show ?thesis unfolding l r by simp
    next
      case False
      have e: "rev (dropWhile P (rev (x # xs))) = x # rev (dropWhile P (rev xs))"
        using False by (simp only: rstrip_Cons if_False)
      have l: "dropWhile P (x # xs) = dropWhile P xs" using True by simp
      show ?thesis unfolding e l using True Cons.IH by simp
    qed
  next
    case False
    have l: "dropWhile P (x # xs) = x # xs" using False by simp
    show ?thesis
    proof (cases "\<forall>y\<in>set xs. P y")
      case True
      have r: "rev (dropWhile P (rev (x # xs))) = [x]"
        using True False by (simp add: rstrip_Cons del: rev.simps)
      show ?thesis unfolding l r using False by simp
    next
      case nall: False
      have r: "rev (dropWhile P (rev (x # xs))) = x # rev (dropWhile P (rev xs))"
        using nall by (simp only: rstrip_Cons if_False)
      show ?thesis unfolding l r using False by simp
    qed
  qed
qed

lemma rstrip_filter_rstrip:
  "rev (dropWhile P (rev (filter Q (rev (dropWhile P (rev s)))))) = rev (dropWhile P (rev (filter Q s)))"
proof -
  have "dropWhile P (filter Q (dropWhile P (rev s))) = dropWhile P (filter Q (rev s))"
    by (rule dropWhile_filter_dropWhile)
  then show ?thesis by (simp add: rev_filter)
qed

lemma strip_filter_strip: "strip (filter Q (strip s)) = strip (filter Q s)"
proof -
  let ?D = "dropWhile isspace"
  let ?E = "\<lambda>s. rev (dropWhile isspace (rev s))"
  have "strip (filter Q (strip s)) = ?E (?D (filter Q (?D (?E s))))"
    by (simp add: strip_def rstrip_lstrip_commute)
  also have "\<dots> = ?E (?D (filter Q (?E s)))"
    by (simp only: dropWhile_filter_dropWhile)
  also have "\<dots> = ?D (?E (filter Q (?E s)))"
    by (simp only: rstrip_lstrip_commute)
  also have "\<dots> = ?D (?E (filter Q s))"
    by (simp only: rstrip_filter_rstrip)
  also have "\<dots> = strip (filter Q s)"
    by (simp add: strip_def rstrip_lstrip_commute)
  finally show ?thesis .
qed

lemma strip_no_space:
  assumes "\<forall>x\<in>set u. \<not> isspace x"
  shows "strip u = u"
proof (cases u)
  case Nil
  then show ?thesis by (simp add: strip_def)
next
  case (Cons a as)
  with assms have 1: "dropWhile isspace u = u" by simp
  from Cons have "rev u \<noteq> []" by simp
  then obtain b bs where r: "rev u = b # bs" by (cases "rev u") auto
  then have "b \<in> set u" by (metis list.set_intros(1) set_rev)
  with assms r have "dropWhile isspace (rev u) = rev u" by simp
  with 1 show ?thesis by (simp add: strip_def)
qed

lemma filter_dropWhile_disjoint:
  "(\<And>c. Q c \<Longrightarrow> \<not> P c) \<Longrightarrow> filter Q (dropWhile P s) = filter Q s"
  by (induction s) auto

lemma filter_strip:
  assumes "\<And>c. Q c \<Longrightarrow> \<not> isspace c"
  shows "filter Q (strip s) = filter Q s"
proof -
  have "filter Q (strip s) = rev (filter Q (dropWhile isspace (rev (dropWhile isspace s))))"
    by (simp add: strip_def rev_filter)
  also have "\<dots> = rev (filter Q (rev (dropWhile isspace s)))"
    using assms by (simp add: filter_dropWhile_disjoint)
  also have "\<dots> = filter Q (dropWhile isspace s)"
    by (simp add: rev_filter)
  also have "\<dots> = filter Q s"
    using assms by (simp add: filter_dropWhile_disjoint)
  finally show ?thesis .
qed

lemma set_strip: "set (strip s) \<subseteq> set s"
proof -
  have "set (strip s) \<subseteq> set (dropWhile isspace s)"
    unfolding strip_def by (metis set_dropWhileD set_rev subsetI)
  also have "\<dots> \<subseteq> set s" by (auto dest: set_dropWhileD)
  finally show ?thesis .
qed

lemma isspace_tolower: "isspace x \<Longrightarrow> tolower x = x"
  by (auto simp: isspace_def tolower_def)

lemma replace_removes: "old \<noteq> new \<Longrightarrow> old \<notin> set (replace old new s)"
  by (auto simp: replace_def)

lemma sub_runs_set: "set (sub_runs P repl b s) \<subseteq> set s \<union> set repl"
  by (induction s arbitrary: b) auto

lemma clean_spaces_set: "set (clean_spaces U t) \<subseteq> set t \<union> {0x20}"
proof -
  have "set (replace 0xA0 0x20 t) \<subseteq> set t \<union> {0x20}"
    by (auto simp: replace_def)
  with sub_runs_set [of "cset_match U False (In [CChar 0x20, CChar 0x09])" "[0x20]" False
      "replace 0xA0 0x20 t"]
  show ?thesis by (auto simp: clean_spaces_def re_sub_runs_def)
qed

section \<open>Properties of the matcher\<close>

lemma str_match_res:
  "(p', s', g') \<in> set (str_match ic w (p, s, g)) \<Longrightarrow>
     g' = g \<and> (\<exists>u. s = u @ s' \<and> list_all2 (chr_match ic) w u)"
proof (induction w arbitrary: p s)
  case Nil
  then show ?case by simp
next
  case (Cons c cs)
  show ?case
  proof (cases s)
    case Nil
    with Cons.prems show ?thesis by simp
  next
    case (Cons x xs)
    with Cons.prems have m: "chr_match ic c x"
      and r: "(p', s', g') \<in> set (str_match ic cs (Some x, xs, g))"
      by (auto split: if_splits)
    from Cons.IH [OF r] obtain u where "g' = g" "xs = u @ s'" "list_all2 (chr_match ic) cs u"
      by blast
    with m Cons show ?thesis
      by (intro conjI exI [of _ "x # u"]) simp_all
  qed
qed

lemma rep_states_res:
  "(p', s', g') \<in> set (rep_states P (p, s, g)) \<Longrightarrow>
     g' = g \<and> (\<exists>u. s = u @ s' \<and> (\<forall>x\<in>set u. P x))"
proof (induction s arbitrary: p)
  case Nil
  then show ?case by simp
next
  case (Cons x xs)
  from Cons.prems consider "(p', s', g') = (p, x # xs, g)"
    | "P x" "(p', s', g') \<in> set (rep_states P (Some x, xs, g))"
    by (auto split: if_splits)
  then show ?case
  proof cases
    case 1
    then show ?thesis by simp
  next
    case 2
    from Cons.IH [OF 2(2)] obtain u where "g' = g" "xs = u @ s'" "\<forall>x\<in>set u. P x"
      by blast
    with 2(1) show ?thesis
      by (intro conjI exI [of _ "x # u"]) simp_all
  qed
qed

lemma rmatch_res:
  "(p', s', g') \<in> set (rmatch U ic r (p, s, g)) \<Longrightarrow>
     (\<exists>u. s = u @ s') \<and> (\<forall>n. n \<notin> may_set r \<longrightarrow> g' n = g n) \<and>
     (\<forall>n. g n \<noteq> None \<longrightarrow> g' n \<noteq> None) \<and> (\<forall>n\<in>must_set r. g' n \<noteq> None)"
proof (induction r arbitrary: p s g p' s' g')
  case Eps
  then show ?case by simp
next
  case (Str w)
  then show ?case using str_match_res [of p' s' g' ic w p s g] by auto
next
  case (Set cs)
  then show ?case by (cases s) (auto split: if_splits)
next
  case WordB
  then show ?case by (auto split: if_splits)
next
  case (Cat r1 r2)
  from Cat.prems obtain p1 s1 g1 where
    a: "(p1, s1, g1) \<in> set (rmatch U ic r1 (p, s, g))" and
    b: "(p', s', g') \<in> set (rmatch U ic r2 (p1, s1, g1))"
    by auto
  from Cat.IH(1) [OF a] Cat.IH(2) [OF b] show ?case
    by (auto; metis)
next
  case (Alt r1 r2)
  from Alt.prems have "(p', s', g') \<in> set (rmatch U ic r1 (p, s, g)) \<or>
    (p', s', g') \<in> set (rmatch U ic r2 (p, s, g))" by simp
  then show ?case using Alt.IH by (elim disjE) fastforce+
next
  case (Opt r)
  from Opt.prems have "(p', s', g') \<in> set (rmatch U ic r (p, s, g)) \<or> (p', s', g') = (p, s, g)"
    by auto
  then show ?case using Opt.IH by (elim disjE) fastforce+
next
  case (Rep cs lo hi gr)
  have "(p', s', g') \<in> set (rep_states (cset_match U ic cs) (p, s, g))"
    using Rep.prems
    by (auto simp: Let_def split: option.splits greed.splits dest: in_set_dropD in_set_takeD)
  from rep_states_res [OF this] show ?case by auto
next
  case (Grp m r)
  from Grp.prems obtain g0 where
    a: "(p', s', g0) \<in> set (rmatch U ic r (p, s, g))" and
    b: "g' = g0(m \<mapsto> take (length s - length s') s)"
    by auto
  from Grp.IH [OF a] b show ?case by auto
qed

lemma search_from_Some:
  "search_from U ic r p s = Some g \<Longrightarrow>
     \<exists>p0 s0 p' s'. (p', s', g) \<in> set (rmatch U ic r (p0, s0, Map.empty)) \<and> (\<exists>v. s = v @ s0)"
proof (induction s arbitrary: p)
  case Nil
  then show ?case
    by (auto split: list.splits) (metis list.set_intros(1))
next
  case (Cons x xs)
  show ?case
  proof (cases "rmatch U ic r (p, x # xs, Map.empty)")
    case Nil
    with Cons.prems have "search_from U ic r (Some x) xs = Some g" by simp
    from Cons.IH [OF this] obtain p0 s0 p' s' v where
      "(p', s', g) \<in> set (rmatch U ic r (p0, s0, Map.empty))" "xs = v @ s0" by blast
    then show ?thesis by (metis append_Cons)
  next
    case (Cons st rest)
    obtain p' s' g' where st: "st = (p', s', g')" by (cases st)
    with Cons Cons.prems have "g' = g" by simp
    with Cons st have "(p', s', g) \<in> set (rmatch U ic r (p, x # xs, Map.empty))" by simp
    then show ?thesis by (metis append_Nil)
  qed
qed

lemma re_search_group:
  assumes "re_search U ic r t = Some m" and "n \<in> must_set r"
  shows "m n \<noteq> None"
proof -
  from assms(1) obtain p0 s0 p' s' where "(p', s', m) \<in> set (rmatch U ic r (p0, s0, Map.empty))"
    unfolding re_search_def by (blast dest: search_from_Some)
  from rmatch_res [OF this] assms(2) show ?thesis by blast
qed

lemma rmatch_Cat_iff:
  "st' \<in> set (rmatch U ic (Cat r1 r2) st) \<longleftrightarrow>
     (\<exists>mid\<in>set (rmatch U ic r1 st). st' \<in> set (rmatch U ic r2 mid))"
  by simp

lemma rmatch_Grp_iff:
  "(p', s', g') \<in> set (rmatch U ic (Grp n r) (p, s, g)) \<longleftrightarrow>
     (\<exists>g0. (p', s', g0) \<in> set (rmatch U ic r (p, s, g)) \<and>
           g' = g0(n \<mapsto> take (length s - length s') s))"
  by force

lemma group_after:
  assumes "(p', s', g') \<in> set (rmatch U ic (Cat (Grp n A) R) (p, s, g))" and "n \<notin> may_set R"
  shows "\<exists>p1 s1 g1. (p1, s1, g1) \<in> set (rmatch U ic A (p, s, g)) \<and>
           g' n = Some (take (length s - length s1) s)"
proof -
  from assms(1) obtain mid where
    "mid \<in> set (rmatch U ic (Grp n A) (p, s, g))" "(p', s', g') \<in> set (rmatch U ic R mid)"
    unfolding rmatch_Cat_iff by blast
  then obtain p1 s1 g2 where
    a: "(p1, s1, g2) \<in> set (rmatch U ic (Grp n A) (p, s, g))" and
    b: "(p', s', g') \<in> set (rmatch U ic R (p1, s1, g2))"
    by (metis prod_cases3)
  from a obtain g1 where c: "(p1, s1, g1) \<in> set (rmatch U ic A (p, s, g))"
    and d: "g2 = g1(n \<mapsto> take (length s - length s1) s)"
    unfolding rmatch_Grp_iff by blast
  from rmatch_res [OF b] assms(2) have "g' n = g2 n" by blast
  with c d show ?thesis by auto
qed

lemma alt_strs_res:
  "(p', s', g') \<in> set (rmatch U ic (foldr Alt (map Str ws) (Str w0)) (p, s, g)) \<Longrightarrow>
     \<exists>w\<in>set (ws @ [w0]). (p', s', g') \<in> set (str_match ic w (p, s, g))"
  by (induction ws) auto

subsection \<open>A match consumes a string of the language\<close>

lemma rep_states_nth:
  "k < length (rep_states P (p, s, g)) \<Longrightarrow>
     k \<le> length s \<and> (\<forall>x\<in>set (take k s). P x) \<and>
     (\<exists>p'. rep_states P (p, s, g) ! k = (p', drop k s, g))"
proof (induction s arbitrary: p k)
  case Nil
  then show ?case by simp
next
  case (Cons x xs)
  show ?case
  proof (cases k)
    case 0
    then show ?thesis by simp
  next
    case (Suc j)
    with Cons.prems have px: "P x" and j: "j < length (rep_states P (Some x, xs, g))"
      by (auto split: if_splits)
    from Cons.IH [OF j] px Suc show ?thesis by simp
  qed
qed

lemma in_drop_take:
  assumes "x \<in> set (drop lo (take m xs))"
  shows "\<exists>k. lo \<le> k \<and> k < m \<and> k < length xs \<and> x = xs ! k"
proof -
  from assms obtain i where i: "i < length (drop lo (take m xs))" "x = drop lo (take m xs) ! i"
    by (auto simp: in_set_conv_nth)
  then have b: "lo + i < m" "lo + i < length xs" by auto
  then have "lo \<le> length (take m xs)" by simp
  then have "drop lo (take m xs) ! i = take m xs ! (lo + i)" by (rule nth_drop)
  also have "\<dots> = xs ! (lo + i)" using b by simp
  finally have "x = xs ! (lo + i)" using i(2) by simp
  with b show ?thesis by (intro exI [of _ "lo + i"]) simp
qed

lemma rep_res:
  assumes "(p', s', g') \<in> set (rmatch U ic (Rep cs lo hi gr) (p, s, g))"
  shows "\<exists>u. s = u @ s' \<and> accepts U ic (Rep cs lo hi gr) u"
proof -
  let ?all = "rep_states (cset_match U ic cs) (p, s, g)"
  define m where "m = (case hi of None \<Rightarrow> length ?all | Some h \<Rightarrow> Suc h)"
  have hi: "case hi of None \<Rightarrow> True | Some h \<Rightarrow> m = Suc h"
    by (simp add: m_def split: option.splits)
  have "(case hi of None \<Rightarrow> ?all | Some h \<Rightarrow> take (Suc h) ?all) = take m ?all"
    by (simp add: m_def split: option.splits)
  with assms have m: "(p', s', g') \<in> set (drop lo (take m ?all))"
    by (auto simp: Let_def split: greed.splits)
  from in_drop_take [OF m] obtain k where
    k: "lo \<le> k" "k < m" "k < length ?all" "(p', s', g') = ?all ! k"
    by blast
  from rep_states_nth [OF k(3)] k(4) have
    r: "k \<le> length s" "\<forall>x\<in>set (take k s). cset_match U ic cs x" "s' = drop k s"
    by auto
  have "s = take k s @ s'" using r(3) by simp
  moreover have "accepts U ic (Rep cs lo hi gr) (take k s)"
    using k(1,2) r(1,2) hi by (auto split: option.splits)
  ultimately show ?thesis by blast
qed

lemma rmatch_accepts:
  "(p', s', g') \<in> set (rmatch U ic r (p, s, g)) \<Longrightarrow> \<exists>u. s = u @ s' \<and> accepts U ic r u"
proof (induction r arbitrary: p s g p' s' g')
  case Eps
  then show ?case by simp
next
  case (Str w)
  then show ?case using str_match_res [of p' s' g' ic w p s g] by auto
next
  case (Set cs)
  then show ?case by (cases s) (auto split: if_splits)
next
  case WordB
  then show ?case by (auto split: if_splits)
next
  case (Cat r1 r2)
  from Cat.prems obtain p1 s1 g1 where
    a: "(p1, s1, g1) \<in> set (rmatch U ic r1 (p, s, g))" and
    b: "(p', s', g') \<in> set (rmatch U ic r2 (p1, s1, g1))"
    by auto
  from Cat.IH(1) [OF a] obtain v where v: "s = v @ s1" "accepts U ic r1 v" by blast
  from Cat.IH(2) [OF b] obtain w where w: "s1 = w @ s'" "accepts U ic r2 w" by blast
  from v w have "s = (v @ w) @ s'" "accepts U ic (Cat r1 r2) (v @ w)" by auto
  then show ?case by blast
next
  case (Alt r1 r2)
  from Alt.prems have "(p', s', g') \<in> set (rmatch U ic r1 (p, s, g)) \<or>
    (p', s', g') \<in> set (rmatch U ic r2 (p, s, g))" by simp
  then show ?case using Alt.IH by (elim disjE) fastforce+
next
  case (Opt r)
  from Opt.prems have "(p', s', g') \<in> set (rmatch U ic r (p, s, g)) \<or> (p', s', g') = (p, s, g)"
    by auto
  then show ?case using Opt.IH by (elim disjE) fastforce+
next
  case (Rep cs lo hi gr)
  then show ?case by (rule rep_res)
next
  case (Grp m r)
  from Grp.prems obtain g0 where "(p', s', g0) \<in> set (rmatch U ic r (p, s, g))" by auto
  from Grp.IH [OF this] show ?case by simp
qed

lemma re_search_accepts:
  assumes "re_search U ic r t = Some m"
  shows "\<exists>pre u post. t = pre @ u @ post \<and> accepts U ic r u"
proof -
  from assms obtain p0 s0 p' s' v where
    a: "(p', s', m) \<in> set (rmatch U ic r (p0, s0, Map.empty))" and b: "t = v @ s0"
    unfolding re_search_def by (blast dest: search_from_Some)
  from rmatch_accepts [OF a] obtain u where "s0 = u @ s'" "accepts U ic r u" by blast
  with b show ?thesis by blast
qed

lemma seq_Cons: "seq (r # rs) = Cat r (seq rs)"
  by (simp add: seq_def)

lemma accepts_seq_tail:
  "accepts U ic (seq (rs @ rs')) u \<Longrightarrow> \<exists>v w. u = v @ w \<and> accepts U ic (seq rs') w"
proof (induction rs arbitrary: u)
  case Nil
  then show ?case by (metis append_Nil)
next
  case (Cons r rs)
  from Cons.prems obtain v w where vw: "u = v @ w" "accepts U ic (seq (rs @ rs')) w"
    by (auto simp: seq_def)
  from Cons.IH [OF vw(2)] obtain v' w' where "w = v' @ w'" "accepts U ic (seq rs') w'" by blast
  with vw(1) have "u = (v @ v') @ w'" "accepts U ic (seq rs') w'" by simp_all
  then show ?case by blast
qed

lemma ci_eq_punct:
  "ci_eq 0x28 x \<longleftrightarrow> x = 0x28" "ci_eq 0x29 x \<longleftrightarrow> x = 0x29" "ci_eq 0x2F x \<longleftrightarrow> x = 0x2F"
  by (auto simp: ci_eq_def tolower_def ignorecase_fixes_def split: if_splits)

lemma accepts_str1: "accepts U True (Str (asc [c])) u \<longleftrightarrow> (\<exists>x. u = [x] \<and> ci_eq (of_char c) x)"
  by (cases u) (auto simp: asc_def chr_match_def list_all2_Cons1)

lemma accepts_digits:
  "accepts U ic (Rep (In [CatDigit]) n (Some n) gr) u \<longleftrightarrow>
     length u = n \<and> (\<forall>x\<in>set u. isdecimal U x)"
  by auto

subsection \<open>What a group captures\<close>

lemma rmatch_captures:
  "(p', s', g') \<in> set (rmatch U ic r (p, s, g)) \<Longrightarrow> g' n = Some v \<Longrightarrow>
     g n = Some v \<or> captures U ic r n v"
proof (induction r arbitrary: p s g p' s' g')
  case Eps
  then show ?case by simp
next
  case (Str w)
  then show ?case using str_match_res [of p' s' g' ic w p s g] by auto
next
  case (Set cs)
  then show ?case by (cases s) (auto split: if_splits)
next
  case WordB
  then show ?case by (auto split: if_splits)
next
  case (Cat r1 r2)
  from Cat.prems(1) obtain mid where
    "mid \<in> set (rmatch U ic r1 (p, s, g))" "(p', s', g') \<in> set (rmatch U ic r2 mid)"
    unfolding rmatch_Cat_iff by blast
  then obtain p1 s1 g1 where
    a: "(p1, s1, g1) \<in> set (rmatch U ic r1 (p, s, g))" and
    b: "(p', s', g') \<in> set (rmatch U ic r2 (p1, s1, g1))"
    by (metis prod_cases3)
  from Cat.IH(2) [OF b Cat.prems(2)] have "g1 n = Some v \<or> captures U ic r2 n v" .
  then show ?case
  proof
    assume "g1 n = Some v"
    from Cat.IH(1) [OF a this] show ?thesis by auto
  next
    assume "captures U ic r2 n v"
    then show ?thesis by simp
  qed
next
  case (Alt r1 r2)
  from Alt.prems(1) have "(p', s', g') \<in> set (rmatch U ic r1 (p, s, g)) \<or>
    (p', s', g') \<in> set (rmatch U ic r2 (p, s, g))" by simp
  then show ?case using Alt.IH Alt.prems(2) by (elim disjE) fastforce+
next
  case (Opt r)
  from Opt.prems(1) have "(p', s', g') \<in> set (rmatch U ic r (p, s, g)) \<or> (p', s', g') = (p, s, g)"
    by auto
  then show ?case using Opt.IH Opt.prems(2) by (elim disjE) fastforce+
next
  case (Rep cs lo hi gr)
  have "(p', s', g') \<in> set (rep_states (cset_match U ic cs) (p, s, g))"
    using Rep.prems(1)
    by (auto simp: Let_def split: option.splits greed.splits dest: in_set_dropD in_set_takeD)
  from rep_states_res [OF this] Rep.prems(2) show ?case by auto
next
  case (Grp m r)
  from Grp.prems(1) obtain g0 where
    a: "(p', s', g0) \<in> set (rmatch U ic r (p, s, g))" and
    b: "g' = g0(m \<mapsto> take (length s - length s') s)"
    unfolding rmatch_Grp_iff by blast
  show ?case
  proof (cases "m = n")
    case True
    from rmatch_accepts [OF a] obtain u where u: "s = u @ s'" "accepts U ic r u" by blast
    with b True Grp.prems(2) have "v = u" by simp
    with u True show ?thesis by simp
  next
    case False
    with b Grp.prems(2) have "g0 n = Some v" by simp
    from Grp.IH [OF a this] show ?thesis by auto
  qed
qed

lemma re_search_captures:
  assumes "re_search U ic r t = Some m" and "m n = Some v"
  shows "captures U ic r n v"
proof -
  from assms(1) obtain p0 s0 p' s' where
    "(p', s', m) \<in> set (rmatch U ic r (p0, s0, Map.empty))"
    unfolding re_search_def by (blast dest: search_from_Some)
  from rmatch_captures [OF this assms(2)] show ?thesis by simp
qed

lemma ci_eq_uncased:
  assumes "ci_eq c x" and "c < 0x41"
  shows "x = c"
  using assms by (auto simp: ci_eq_def tolower_def ignorecase_fixes_def split: if_splits)

lemma range_ic_iff:
  "item_match U True (CRange lo hi) x \<longleftrightarrow> (\<exists>c. lo \<le> c \<and> c \<le> hi \<and> ci_eq c x)"
  by (auto simp: list_ex_iff)

lemma digit_range_ic:
  assumes "item_match U True (CRange 0x30 0x39) x"
  shows "0x30 \<le> x \<and> x \<le> 0x39"
proof -
  from assms obtain c where c: "0x30 \<le> c" "c \<le> 0x39" "ci_eq c x"
    unfolding range_ic_iff by blast
  then have "c < 0x41" by simp
  from ci_eq_uncased [OF c(3) this] c(1,2) show ?thesis by simp
qed

section \<open>Properties of the client extractor\<close>

lemma num_re_group: "1 \<in> must_set num_re"
  by (simp add: num_re_def seq_def)

lemma name_re_group: "1 \<in> must_set name_re"
  by (simp add: name_re_def seq_def)

lemma client_name_of_total:
  "\<exists>name. client_name_of U text = Inr name \<and>
     (name = None \<longleftrightarrow> re_search U True name_re text = None)"
proof (cases "re_search U True name_re text")
  case None
  then show ?thesis by (simp add: client_name_of_def)
next
  case (Some m)
  with re_search_group [OF Some name_re_group] obtain s where "m 1 = Some s" by auto
  with Some show ?thesis by (simp add: client_name_of_def group_strip_def)
qed

lemma format_nonempty: "digits \<noteq> [] \<Longrightarrow> \<exists>r. format_number_2digit_groups digits = Inr r"
  by (cases digits) (simp_all add: format_number_2digit_groups_def)

lemma list15:
  assumes "length (ds :: 'a list) = 15"
  shows "ds = [ds ! 0, ds ! 1, ds ! 2, ds ! 3, ds ! 4, ds ! 5, ds ! 6, ds ! 7, ds ! 8, ds ! 9,
               ds ! 10, ds ! 11, ds ! 12, ds ! 13, ds ! 14]"
proof (rule nth_equalityI)
  show "length ds = length [ds ! 0, ds ! 1, ds ! 2, ds ! 3, ds ! 4, ds ! 5, ds ! 6, ds ! 7, ds ! 8, ds ! 9,
               ds ! 10, ds ! 11, ds ! 12, ds ! 13, ds ! 14]"
    using assms by simp
next
  fix i assume "i < length ds"
  with assms have "i < 15" by simp
  then have "i \<in> {0,1,2,3,4,5,6,7,8,9,10,11,12,13,14}" by simp arith
  then show "ds ! i = [ds ! 0, ds ! 1, ds ! 2, ds ! 3, ds ! 4, ds ! 5, ds ! 6, ds ! 7, ds ! 8, ds ! 9,
               ds ! 10, ds ! 11, ds ! 12, ds ! 13, ds ! 14] ! i"
    by auto
qed

lemma odd_upto_15: "filter odd [1..<15] = [1, 3, 5, 7, 9, 11, 13 :: nat]"
  by (simp add: upt_rec)

lemma format_15_explicit:
  "format_number_2digit_groups [d0, d1, d2, d3, d4, d5, d6, d7, d8, d9, d10, d11, d12, d13, d14] =
     Inr [d0, 0x20, d1, d2, 0x20, d3, d4, 0x20, d5, d6, 0x20, d7, d8, 0x20, d9, d10, 0x20,
          d11, d12, 0x20, d13, d14]"
  by (simp add: format_number_2digit_groups_def odd_upto_15)

lemma format_15:
  assumes "length ds = 15"
  shows "format_number_2digit_groups ds =
     Inr [ds ! 0, 0x20, ds ! 1, ds ! 2, 0x20, ds ! 3, ds ! 4, 0x20, ds ! 5, ds ! 6, 0x20,
          ds ! 7, ds ! 8, 0x20, ds ! 9, ds ! 10, 0x20, ds ! 11, ds ! 12, 0x20, ds ! 13, ds ! 14]"
  by (subst list15 [OF assms]) (simp only: format_15_explicit)

lemma sub_not_digit_space:
  "re_sub_each U (NotIn [CRange 0x30 0x39, CChar 0x20]) s =
     filter (\<lambda>c. (0x30 \<le> c \<and> c \<le> 0x39) \<or> c = 0x20) s"
  by (simp add: re_sub_each_def chr_match_def)

lemma sub_not_digit: "re_sub_each U (NotIn [CatDigit]) s = filter (isdecimal U) s"
  by (simp add: re_sub_each_def)

lemma client_number_of_cases:
  assumes "re_search U True num_re (clean_spaces U text) = Some m" and "m 1 = Some span"
  shows "client_number_of U text =
     (let ds = re_sub_each U (NotIn [CatDigit]) (strip span)
      in if 15 \<le> length ds
         then ([take 15 ds],
               case format_number_2digit_groups (take 15 ds) of
                 Inl e \<Rightarrow> Inl e | Inr formatted \<Rightarrow> Inr (Some formatted))
         else ([], Inr (Some (strip (filter (\<lambda>c. (0x30 \<le> c \<and> c \<le> 0x39) \<or> c = 0x20) span)))))"
proof (cases "strip span = []")
  case True
  then have "re_sub_each U (NotIn [CatDigit]) (strip span) = []"
    by (simp add: sub_not_digit)
  moreover have "strip (filter (\<lambda>c. (0x30 \<le> c \<and> c \<le> 0x39) \<or> c = 0x20) span) = []"
  proof -
    have "strip (filter (\<lambda>c. (0x30 \<le> c \<and> c \<le> 0x39) \<or> c = 0x20) span) =
          strip (filter (\<lambda>c. (0x30 \<le> c \<and> c \<le> 0x39) \<or> c = 0x20) (strip span))"
      by (rule strip_filter_strip [symmetric])
    also have "\<dots> = []" unfolding True by (simp add: strip_def)
    finally show ?thesis .
  qed
  ultimately show ?thesis
    using assms True by (simp add: client_number_of_def group_strip_def)
next
  case False
  then show ?thesis
    using assms
    by (simp add: client_number_of_def group_strip_def Let_def sub_not_digit_space
        strip_filter_strip)
qed

lemma client_number_of_total:
  "\<exists>number. snd (client_number_of U text) = Inr number \<and>
     (number = None \<longleftrightarrow> re_search U True num_re (clean_spaces U text) = None)"
proof (cases "re_search U True num_re (clean_spaces U text)")
  case None
  then show ?thesis by (simp add: client_number_of_def)
next
  case (Some m)
  with re_search_group [OF Some num_re_group] obtain span where span: "m 1 = Some span" by auto
  let ?ds = "re_sub_each U (NotIn [CatDigit]) (strip span)"
  show ?thesis
  proof (cases "15 \<le> length ?ds")
    case True
    then have "take 15 ?ds \<noteq> []" by auto
    from format_nonempty [OF this] obtain r where "format_number_2digit_groups (take 15 ?ds) = Inr r" ..
    with True Some show ?thesis
      by (simp add: client_number_of_cases [OF Some span] Let_def)
  next
    case False
    with Some show ?thesis
      by (simp add: client_number_of_cases [OF Some span] Let_def)
  qed
qed

lemma client_extractor_total:
  "\<exists>name number. extract_client_info U text = Inr (name, number) \<and>
     (number = None \<longleftrightarrow> re_search U True num_re (clean_spaces U text) = None) \<and>
     (name = None \<longleftrightarrow> re_search U True name_re text = None)"
proof -
  obtain number where n: "snd (client_number_of U text) = Inr number"
    "number = None \<longleftrightarrow> re_search U True num_re (clean_spaces U text) = None"
    using client_number_of_total by blast
  obtain name where m: "client_name_of U text = Inr name"
    "name = None \<longleftrightarrow> re_search U True name_re text = None"
    using client_name_of_total by blast
  from n m show ?thesis by (simp add: extract_client_info_def)
qed

lemma num_span_chars:
  assumes "re_search U True num_re t = Some m" and "m 1 = Some span"
  shows "\<forall>c\<in>set span. (0x30 \<le> c \<and> c \<le> 0x39) \<or> c = 0x20 \<or> c = 0x2D"
proof -
  from re_search_captures [OF assms] have
    "accepts U True (seq [Set (In [CRange 0x30 0x39]),
        Rep (In [CRange 0x30 0x39, CChar 0x20, CChar 0x2D]) 10 None Greedy]) span"
    by (simp add: num_re_def seq_def)
  then obtain x rest where span: "span = x # rest"
    and x: "item_match U True (CRange 0x30 0x39) x"
    and rest: "\<forall>y\<in>set rest. item_match U True (CRange 0x30 0x39) y \<or>
        chr_match True 0x20 y \<or> chr_match True 0x2D y"
    by (auto simp: seq_def simp del: item_match.simps(2))
  have "(0x30 \<le> y \<and> y \<le> 0x39) \<or> y = 0x20 \<or> y = 0x2D" if "y \<in> set rest" for y
  proof -
    from rest that consider "item_match U True (CRange 0x30 0x39) y"
      | "ci_eq 0x20 y" | "ci_eq 0x2D y"
      by (auto simp: chr_match_def)
    then show ?thesis
    proof cases
      case 1
      then show ?thesis using digit_range_ic by blast
    next
      case 2
      from ci_eq_uncased [OF this] show ?thesis by simp
    next
      case 3
      from ci_eq_uncased [OF this] show ?thesis by simp
    qed
  qed
  with digit_range_ic [OF x] span show ?thesis by auto
qed

lemma span_digits:
  assumes "\<forall>c\<in>set span. (0x30 \<le> c \<and> c \<le> 0x39) \<or> c = 0x20 \<or> c = 0x2D"
    and "\<forall>c. 0x30 \<le> c \<and> c \<le> 0x39 \<longrightarrow> isdecimal U c"
    and "\<not> isdecimal U 0x20" and "\<not> isdecimal U 0x2D"
  shows "filter (isdecimal U) (strip span) = filter (\<lambda>c. 0x30 \<le> c \<and> c \<le> 0x39) span"
proof -
  have "filter (isdecimal U) (strip span) = filter (\<lambda>c. 0x30 \<le> c \<and> c \<le> 0x39) (strip span)"
  proof (rule filter_cong [OF refl])
    fix c assume "c \<in> set (strip span)"
    with set_strip have "c \<in> set span" by blast
    with assms show "isdecimal U c = (0x30 \<le> c \<and> c \<le> 0x39)" by auto
  qed
  also have "\<dots> = filter (\<lambda>c. 0x30 \<le> c \<and> c \<le> 0x39) span"
    by (rule filter_strip) (auto simp: isspace_def)
  finally show ?thesis .
qed

section \<open>Properties of the prescription extractor\<close>

lemma person_re_groups: "1 \<in> must_set person_re" "2 \<in> must_set person_re" "3 \<in> must_set person_re"
  by (simp_all add: person_re_def seq_def)

lemma eye_re_group: "1 \<in> must_set (eye_re side)"
  by (simp add: eye_re_def seq_def)

lemma if_match_strip:
  assumes "\<And>m. M = Some m \<Longrightarrow> m n \<noteq> None"
  shows "if_match M (\<lambda>m. group_strip m n) = Inr (map_option (\<lambda>m. strip (the (m n))) M)"
  using assms by (cases M) (auto simp: if_match_def group_strip_def)

lemma if_match_replace:
  assumes "\<And>m. M = Some m \<Longrightarrow> m n \<noteq> None"
  shows "if_match M (\<lambda>m. group_replace m n) =
         Inr (map_option (\<lambda>m. replace 0x2C 0x2E (the (m n))) M)"
  using assms by (cases M) (auto simp: if_match_def group_replace_def)

lemma parse_ordonnance_eq:
  "parse_ordonnance U text =
     Inr \<lparr>title = map_option (\<lambda>m. strip (the (m 1)))
                   (re_search U True person_re (clean_spaces U text)),
          full_name = map_option (\<lambda>m. strip (the (m 2)))
                   (re_search U True person_re (clean_spaces U text)),
          birthdate = map_option (\<lambda>m. strip (the (m 3)))
                   (re_search U True person_re (clean_spaces U text)),
          eye_right = map_option (\<lambda>m. replace 0x2C 0x2E (the (m 1)))
                   (re_search U True (eye_re (asc ''Droit'')) (clean_spaces U text)),
          eye_left = map_option (\<lambda>m. replace 0x2C 0x2E (the (m 1)))
                   (re_search U True (eye_re (asc ''Gauche'')) (clean_spaces U text))\<rparr>"
proof -
  let ?t = "clean_spaces U text"
  have p: "if_match (re_search U True person_re ?t) (\<lambda>m. group_strip m n) =
      Inr (map_option (\<lambda>m. strip (the (m n))) (re_search U True person_re ?t))"
    if "n \<in> must_set person_re" for n
    by (rule if_match_strip) (rule re_search_group [OF _ that])
  have e: "if_match (re_search U True (eye_re side) ?t) (\<lambda>m. group_replace m 1) =
      Inr (map_option (\<lambda>m. replace 0x2C 0x2E (the (m 1))) (re_search U True (eye_re side) ?t))"
    for side
    by (rule if_match_replace) (rule re_search_group [OF _ eye_re_group])
  show ?thesis
    unfolding parse_ordonnance_def Let_def p [OF person_re_groups(1)]
      p [OF person_re_groups(2)] p [OF person_re_groups(3)] e
    by (simp add: bind_err_def)
qed

lemma parse_ordonnance_fields:
  "\<exists>r. parse_ordonnance U text = Inr r \<and>
     (case re_search U True person_re (clean_spaces U text) of
        None \<Rightarrow> title r = None \<and> full_name r = None \<and> birthdate r = None
      | Some m \<Rightarrow> (\<exists>a b c. m 1 = Some a \<and> m 2 = Some b \<and> m 3 = Some c \<and>
           title r = Some (strip a) \<and> full_name r = Some (strip b) \<and>
           birthdate r = Some (strip c))) \<and>
     (case re_search U True (eye_re (asc ''Droit'')) (clean_spaces U text) of
        None \<Rightarrow> eye_right r = None
      | Some m \<Rightarrow> (\<exists>v. m 1 = Some v \<and> eye_right r = Some (replace 0x2C 0x2E v))) \<and>
     (case re_search U True (eye_re (asc ''Gauche'')) (clean_spaces U text) of
        None \<Rightarrow> eye_left r = None
      | Some m \<Rightarrow> (\<exists>v. m 1 = Some v \<and> eye_left r = Some (replace 0x2C 0x2E v)))"
proof -
  let ?t = "clean_spaces U text"
  have p: "case re_search U True person_re ?t of
        None \<Rightarrow> True
      | Some m \<Rightarrow> (\<exists>a b c. m 1 = Some a \<and> m 2 = Some b \<and> m 3 = Some c)"
  proof (cases "re_search U True person_re ?t")
    case (Some m)
    with re_search_group [OF Some person_re_groups(1)] re_search_group [OF Some person_re_groups(2)]
      re_search_group [OF Some person_re_groups(3)] show ?thesis by auto
  qed simp
  have e: "case re_search U True (eye_re side) ?t of
        None \<Rightarrow> True | Some m \<Rightarrow> (\<exists>v. m 1 = Some v)" for side
  proof (cases "re_search U True (eye_re side) ?t")
    case (Some m)
    with re_search_group [OF Some eye_re_group] show ?thesis by auto
  qed simp
  from p e [of "asc ''Droit''"] e [of "asc ''Gauche''"] show ?thesis
    by (auto simp: parse_ordonnance_eq split: option.splits)
qed

lemma person_re_shape:
  "person_re = Cat WordB (Cat (Grp 1 (foldr Alt (map Str (butlast person_titles)) (Str (last person_titles))))
     (seq [Rep (In [CatSpace]) 1 None Greedy,
      Grp 2 (Rep (In [CRange 0x41 0x5A, CRange 0x61 0x7A, CRange 0xC0 0xFF,
                      CChar 0x27, CChar 0x20, CChar 0x2D]) 1 None Lazy),
      Rep (In [CatSpace]) 0 None Greedy,
      Str (asc ''(''),
      Grp 3 (seq [Rep (In [CatDigit]) 2 (Some 2) Greedy, Str (asc ''/''),
                  Rep (In [CatDigit]) 2 (Some 2) Greedy, Str (asc ''/''),
                  Rep (In [CatDigit]) 4 (Some 4) Greedy]),
      Str (asc '')'')]))"
  unfolding person_re_def by (simp only: seq_Cons)

lemma person_title_captured:
  assumes "re_search U True person_re t = Some m"
  shows "\<exists>w\<in>set person_titles. \<exists>u. m 1 = Some u \<and> list_all2 ci_eq w u"
proof -
  from assms obtain p0 s0 p' s' where
    m: "(p', s', m) \<in> set (rmatch U True person_re (p0, s0, Map.empty))"
    unfolding re_search_def by (blast dest: search_from_Some)
  let ?A = "foldr Alt (map Str (butlast person_titles)) (Str (last person_titles))"
  obtain R where shape: "person_re = Cat WordB (Cat (Grp 1 ?A) R)" and R: "1 \<notin> may_set R"
    using person_re_shape by (rule that) (simp add: seq_def)
  from m have "(p', s', m) \<in> set (rmatch U True (Cat (Grp 1 ?A) R) (p0, s0, Map.empty))"
    unfolding shape by (auto split: if_splits)
  from group_after [OF this R] obtain p1 s1 g1 where
    a: "(p1, s1, g1) \<in> set (rmatch U True ?A (p0, s0, Map.empty))" and
    b: "m 1 = Some (take (length s0 - length s1) s0)"
    by blast
  from alt_strs_res [OF a] obtain w where
    w: "w \<in> set (butlast person_titles @ [last person_titles])" and
    c: "(p1, s1, g1) \<in> set (str_match True w (p0, s0, Map.empty))"
    by blast
  from str_match_res [OF c] obtain u where u: "s0 = u @ s1" "list_all2 (chr_match True) w u"
    by blast
  have "butlast person_titles @ [last person_titles] = person_titles"
    by (rule append_butlast_last_id) (simp add: person_titles_def)
  with w have "w \<in> set person_titles" by simp
  moreover from u(1) b have "m 1 = Some u" by simp
  moreover from u(2) have "list_all2 ci_eq w u" by (simp add: chr_match_def [abs_def])
  ultimately show ?thesis by blast
qed

lemma title_chars_not_space:
  "\<forall>w\<in>set person_titles. \<forall>c\<in>set w.
     \<not> isspace (tolower c) \<and> (\<forall>f\<in>set (ignorecase_fixes (tolower c)). \<not> isspace f)"
  by (simp add: person_titles_def asc_def tolower_def ignorecase_fixes_def isspace_def)

lemma title_no_space:
  assumes "w \<in> set person_titles" and "list_all2 ci_eq w u"
  shows "\<forall>x\<in>set u. \<not> isspace x"
proof
  fix x assume "x \<in> set u"
  with assms(2) obtain c where c: "c \<in> set w" "ci_eq c x"
    by (metis in_set_conv_nth list_all2_conv_all_nth)
  show "\<not> isspace x"
  proof
    assume sp: "isspace x"
    then have "tolower x = x" by (rule isspace_tolower)
    with c(2) have "x = tolower c \<or> x \<in> set (ignorecase_fixes (tolower c))"
      by (simp add: ci_eq_def)
    with title_chars_not_space assms(1) c(1) sp show False by blast
  qed
qed

lemma accepts_date_digits:
  assumes "accepts U True (seq [Rep (In [CatDigit]) 2 (Some 2) Greedy, Str (asc ''/''),
                  Rep (In [CatDigit]) 2 (Some 2) Greedy, Str (asc ''/''),
                  Rep (In [CatDigit]) 4 (Some 4) Greedy]) d"
  shows "\<exists>a b c. d = a @ [0x2F] @ b @ [0x2F] @ c \<and>
     length a = 2 \<and> length b = 2 \<and> length c = 4 \<and> (\<forall>x\<in>set (a @ b @ c). isdecimal U x)"
proof -
  from assms obtain a r1 where 1: "d = a @ r1" "length a = 2" "\<forall>x\<in>set a. isdecimal U x"
    "accepts U True (seq [Str (asc ''/''), Rep (In [CatDigit]) 2 (Some 2) Greedy, Str (asc ''/''),
                  Rep (In [CatDigit]) 4 (Some 4) Greedy]) r1"
    unfolding seq_Cons [of "Rep (In [CatDigit]) 2 (Some 2) Greedy"] accepts.simps(5) accepts_digits
    by blast
  from 1(4) obtain r2 where 2: "r1 = [0x2F] @ r2"
    "accepts U True (seq [Rep (In [CatDigit]) 2 (Some 2) Greedy, Str (asc ''/''),
                  Rep (In [CatDigit]) 4 (Some 4) Greedy]) r2"
    unfolding seq_Cons [of "Str (asc ''/'')"] accepts.simps(5) accepts_str1
    by (auto simp: ci_eq_punct)
  from 2(2) obtain b r3 where 3: "r2 = b @ r3" "length b = 2" "\<forall>x\<in>set b. isdecimal U x"
    "accepts U True (seq [Str (asc ''/''), Rep (In [CatDigit]) 4 (Some 4) Greedy]) r3"
    unfolding seq_Cons [of "Rep (In [CatDigit]) 2 (Some 2) Greedy"] accepts.simps(5) accepts_digits
    by blast
  from 3(4) obtain r4 where 4: "r3 = [0x2F] @ r4"
    "accepts U True (seq [Rep (In [CatDigit]) 4 (Some 4) Greedy]) r4"
    unfolding seq_Cons [of "Str (asc ''/'')"] accepts.simps(5) accepts_str1
    by (auto simp: ci_eq_punct)
  from 4(2) have 5: "length r4 = 4" "\<forall>x\<in>set r4. isdecimal U x"
    by (auto simp: seq_def)
  from 1 2 3 4 5 show ?thesis
    by (intro exI [of _ a] exI [of _ b] exI [of _ r4]) auto
qed

lemma accepts_date:
  assumes "accepts U True (seq [Str (asc ''(''),
      Grp 3 (seq [Rep (In [CatDigit]) 2 (Some 2) Greedy, Str (asc ''/''),
                  Rep (In [CatDigit]) 2 (Some 2) Greedy, Str (asc ''/''),
                  Rep (In [CatDigit]) 4 (Some 4) Greedy]),
      Str (asc '')'')]) u"
  shows "\<exists>a b c. u = [0x28] @ a @ [0x2F] @ b @ [0x2F] @ c @ [0x29] \<and>
     length a = 2 \<and> length b = 2 \<and> length c = 4 \<and> (\<forall>x\<in>set (a @ b @ c). isdecimal U x)"
proof -
  from assms obtain r1 where 1: "u = [0x28] @ r1"
    "accepts U True (seq [Grp 3 (seq [Rep (In [CatDigit]) 2 (Some 2) Greedy, Str (asc ''/''),
                  Rep (In [CatDigit]) 2 (Some 2) Greedy, Str (asc ''/''),
                  Rep (In [CatDigit]) 4 (Some 4) Greedy]),
      Str (asc '')'')]) r1"
    unfolding seq_Cons [of "Str (asc ''('')"] accepts.simps(5) accepts_str1
    by (auto simp: ci_eq_punct)
  from 1(2) obtain d r2 where 2: "r1 = d @ r2"
    "accepts U True (seq [Rep (In [CatDigit]) 2 (Some 2) Greedy, Str (asc ''/''),
                  Rep (In [CatDigit]) 2 (Some 2) Greedy, Str (asc ''/''),
                  Rep (In [CatDigit]) 4 (Some 4) Greedy]) d"
    "accepts U True (seq [Str (asc '')'')]) r2"
    unfolding seq_Cons [of "Grp 3 r" for r] accepts.simps(5) accepts.simps(9)
    by blast
  from 2(3) have 3: "r2 = [0x29]"
    unfolding seq_Cons [of "Str (asc '')'')"] accepts.simps(5) accepts_str1
    by (auto simp: seq_def ci_eq_punct)
  from accepts_date_digits [OF 2(2)] obtain a b c where
    d: "d = a @ [0x2F] @ b @ [0x2F] @ c" "length a = 2" "length b = 2" "length c = 4"
      "\<forall>x\<in>set (a @ b @ c). isdecimal U x"
    by blast
  from 1(1) 2(1) 3 d show ?thesis
    by (intro exI [of _ a] exI [of _ b] exI [of _ c]) simp
qed

lemma person_re_tail:
  "person_re = seq ([WordB,
      Grp 1 (foldr Alt (map Str (butlast person_titles)) (Str (last person_titles))),
      Rep (In [CatSpace]) 1 None Greedy,
      Grp 2 (Rep (In [CRange 0x41 0x5A, CRange 0x61 0x7A, CRange 0xC0 0xFF,
                      CChar 0x27, CChar 0x20, CChar 0x2D]) 1 None Lazy),
      Rep (In [CatSpace]) 0 None Greedy] @
     [Str (asc ''(''),
      Grp 3 (seq [Rep (In [CatDigit]) 2 (Some 2) Greedy, Str (asc ''/''),
                  Rep (In [CatDigit]) 2 (Some 2) Greedy, Str (asc ''/''),
                  Rep (In [CatDigit]) 4 (Some 4) Greedy]),
      Str (asc '')'')])"
  by (simp add: person_re_def)

lemma person_needs_date:
  assumes "re_search U True person_re t = Some m"
  shows "\<exists>pre a b c post. t = pre @ [0x28] @ a @ [0x2F] @ b @ [0x2F] @ c @ [0x29] @ post \<and>
     length a = 2 \<and> length b = 2 \<and> length c = 4 \<and> (\<forall>x\<in>set (a @ b @ c). isdecimal U x)"
proof -
  from re_search_accepts [OF assms] obtain pre u post where
    t: "t = pre @ u @ post" and u: "accepts U True person_re u" by blast
  from u obtain v w where vw: "u = v @ w" and
    "accepts U True (seq [Str (asc ''(''),
      Grp 3 (seq [Rep (In [CatDigit]) 2 (Some 2) Greedy, Str (asc ''/''),
                  Rep (In [CatDigit]) 2 (Some 2) Greedy, Str (asc ''/''),
                  Rep (In [CatDigit]) 4 (Some 4) Greedy]),
      Str (asc '')'')]) w"
    unfolding person_re_tail by (blast dest: accepts_seq_tail)
  from accepts_date [OF this(2)] obtain a b c where
    w: "w = [0x28] @ a @ [0x2F] @ b @ [0x2F] @ c @ [0x29]"
    and d: "length a = 2" "length b = 2" "length c = 4" "\<forall>x\<in>set (a @ b @ c). isdecimal U x"
    by blast
  from t vw w have "t = (pre @ v) @ [0x28] @ a @ [0x2F] @ b @ [0x2F] @ c @ [0x29] @ post"
    by simp
  with d show ?thesis by blast
qed

lemma person_needs_paren:
  assumes "re_search U True person_re (clean_spaces U t) = Some m"
  shows "0x28 \<in> set t"
proof -
  from person_needs_date [OF assms] have "0x28 \<in> set (clean_spaces U t)" by auto
  with clean_spaces_set [of U t] show ?thesis by auto
qed

section \<open>Properties of text acquisition\<close>

lemma ocr_parts_ok:
  "map (\<lambda>img. image_to_string w img ''eng'' ''--oem 3 --psm 6'') images = map Inr texts \<Longrightarrow>
   ocr_parts w images = (map Ocr images, Inr texts)"
  by (induction images arbitrary: texts) auto

lemma ocr_parts_not_runtime: "snd (ocr_parts w images) \<noteq> Inl (RuntimeError msg)"
  by (induction images) (auto split: sum.splits prod.splits)

lemma ocr_fallback_configured:
  assumes "POPPLER_PATH = Some pp" "pp \<noteq> []"
  shows "snd (ocr_fallback POPPLER_PATH w pdf_path) \<noteq> Inl (RuntimeError msg)"
proof -
  have "snd (ocr_parts w images) \<noteq> Inl (RuntimeError msg)" for images
    by (rule ocr_parts_not_runtime)
  then have "ocr_parts w images \<noteq> (calls, Inl (RuntimeError msg))" for images calls
    by (metis snd_conv)
  with assms show ?thesis
    by (auto simp: ocr_fallback_def split: sum.splits prod.splits)
qed

lemma ocr_fallback_unset:
  assumes "POPPLER_PATH = None \<or> POPPLER_PATH = Some []"
  shows "ocr_fallback POPPLER_PATH w pdf_path =
         ([], Inl (RuntimeError ''POPPLER_PATH is not set in .env''))"
  using assms by (auto simp: ocr_fallback_def)

lemma ocr_fallback_ok:
  assumes "POPPLER_PATH = Some pp" "pp \<noteq> []"
    and "convert_from_path w pdf_path 400 pp = Inr images"
    and "map (\<lambda>img. image_to_string w img ''eng'' ''--oem 3 --psm 6'') images = map Inr texts"
  shows "ocr_fallback POPPLER_PATH w pdf_path =
         (Rasterize pdf_path # map Ocr images, Inr (join [0x0A] texts))"
  using assms by (simp add: ocr_fallback_def ocr_parts_ok)

section \<open>Properties of the main programs\<close>











section \<open>Concrete runs\<close>

lemmas run_defs = extract_client_info_def client_number_of_def client_name_of_def clean_spaces_def
  re_sub_runs_def replace_def re_search_def num_re_def name_re_def seq_def asc_def latin1_def
  group_strip_def strip_def re_sub_each_def format_number_2digit_groups_def chr_match_def ci_eq_def
  tolower_def ignorecase_fixes_def isspace_def Let_def parse_ordonnance_def person_re_def eye_re_def
  person_titles_def bind_err_def if_match_def group_replace_def isword_def at_boundary_def

lemmas acq_defs = extract_text_pdf_def structural_text_def ocr_fallback_def strip_def isspace_def
  asc_def

lemma number_text_search:
  "re_search latin1 True num_re (clean_spaces latin1 number_text) =
     Some [1 \<mapsto> asc ''748012345678901234'']"
  by (simp add: number_text_def run_defs)

lemma sep_number_text_search:
  "re_search latin1 True num_re (clean_spaces latin1 sep_number_text) =
     Some [1 \<mapsto> asc ''2-74-01-12-345-678-90'']"
  by (simp add: sep_number_text_def run_defs)

lemma short_number_text_search:
  "re_search latin1 True num_re (clean_spaces latin1 short_number_text) =
     Some [1 \<mapsto> asc ''2 74 01 12-345 '']"
  by (simp add: short_number_text_def run_defs)


lemma enfant_text_run:
  "parse_ordonnance latin1 enfant_text =
     Inr \<lparr>title = Some (asc ''Enfant''), full_name = Some (asc ''Dupont''),
          birthdate = Some (asc ''01/02/2010''), eye_right = None, eye_left = None\<rparr>"
  by (simp add: enfant_text_def run_defs)

lemma madame_text_run:
  "parse_ordonnance latin1 madame_text =
     Inr \<lparr>title = None, full_name = None, birthdate = None, eye_right = None, eye_left = None\<rparr>"
  by (simp add: madame_text_def run_defs)

lemma madame_date_text_run:
  "parse_ordonnance latin1 madame_date_text =
     Inr \<lparr>title = Some (asc ''MADAME''), full_name = Some (asc ''Dupont''),
          birthdate = Some (asc ''03/04/1980''), eye_right = None, eye_left = None\<rparr>"
  by (simp add: madame_date_text_def run_defs)

lemma eyes_text_run:
  "parse_ordonnance latin1 eyes_text =
     Inr \<lparr>title = None, full_name = None, birthdate = None,
          eye_right = Some (asc ''-1.25''), eye_left = Some (asc ''+0.50'')\<rparr>"
  by (simp add: eyes_text_def run_defs)

lemma eyes_text_left_run:
  "parse_ordonnance latin1 eyes_text_left =
     Inr \<lparr>title = None, full_name = None, birthdate = None,
          eye_right = None, eye_left = Some (asc ''-1.25'')\<rparr>"
  by (simp add: eyes_text_left_def run_defs)

lemma w_text_structural:
  "structural_text w_text pdf_path =
     Some embedded_text"
  by (simp add: acq_defs w_text_def embedded_text_def)

lemma w_scan_structural: "structural_text w_scan pdf_path = Some (asc ''scan'')"
  by (simp add: acq_defs w_scan_def)

section \<open>The verified properties\<close>

text \<open>
  Claim C1, as amended. \<open>extract_text_pdf\<close> takes its text from one source. When the
  stripped structural text has more than 30 characters, it returns that text and calls
  neither the rasterizer nor the OCR engine. When the structural text has 30 characters
  or fewer, or the structural extraction failed, and \<open>POPPLER_PATH\<close> is set, and the
  rasterizer and the OCR engine return, it rasterizes, calls the OCR engine once per
  page image, and returns the OCR texts joined by newlines. (Without \<open>POPPLER_PATH\<close>
  it raises instead, and the OCR engine is not called: the run below.)
\<close>

theorem text_acquisition_one_source:
  "(\<forall>s. structural_text w pdf_path = Some s \<and> 30 < length s \<longrightarrow>
      extract_text_pdf POPPLER_PATH w pdf_path = ([], Inr s)) \<and>
   ((structural_text w pdf_path = None \<or>
       (\<exists>s. structural_text w pdf_path = Some s \<and> length s \<le> 30)) \<and>
     POPPLER_PATH = Some pp \<and> pp \<noteq> [] \<and>
     convert_from_path w pdf_path 400 pp = Inr images \<and>
     map (\<lambda>img. image_to_string w img ''eng'' ''--oem 3 --psm 6'') images = map Inr texts \<longrightarrow>
      extract_text_pdf POPPLER_PATH w pdf_path =
        (Rasterize pdf_path # map Ocr images, Inr (join [0x0A] texts)))"
proof (intro conjI allI impI)
  fix s
  assume "structural_text w pdf_path = Some s \<and> 30 < length s"
  then show "extract_text_pdf POPPLER_PATH w pdf_path = ([], Inr s)"
    by (simp add: extract_text_pdf_def)
next
  assume a: "(structural_text w pdf_path = None \<or>
       (\<exists>s. structural_text w pdf_path = Some s \<and> length s \<le> 30)) \<and>
     POPPLER_PATH = Some pp \<and> pp \<noteq> [] \<and>
     convert_from_path w pdf_path 400 pp = Inr images \<and>
     map (\<lambda>img. image_to_string w img ''eng'' ''--oem 3 --psm 6'') images = map Inr texts"
  then have "extract_text_pdf POPPLER_PATH w pdf_path = ocr_fallback POPPLER_PATH w pdf_path"
    by (auto simp: extract_text_pdf_def)
  with a show "extract_text_pdf POPPLER_PATH w pdf_path =
        (Rasterize pdf_path # map Ocr images, Inr (join [0x0A] texts))"
    by (simp add: ocr_fallback_ok)
qed

theorem text_acquisition_one_source_witness:
  "structural_text w_text [asc ''a.pdf''] = Some embedded_text \<and>
   30 < length embedded_text \<and>
   extract_text_pdf None w_text [asc ''a.pdf''] =
     ([], Inr embedded_text) \<and>
   structural_text w_scan [asc ''a.pdf''] = Some (asc ''scan'') \<and>
   extract_text_pdf (Some ''/usr/bin'') w_scan [asc ''a.pdf''] =
     ([Rasterize [asc ''a.pdf''], Ocr 0, Ocr 1],
      Inr (asc ''page one'' @ [0x0A] @ asc ''page two''))"
proof -
  have c: "convert_from_path w_scan [asc ''a.pdf''] 400 ''/usr/bin'' = Inr [0, 1]"
    by (simp add: w_scan_def)
  have o: "map (\<lambda>img. image_to_string w_scan img ''eng'' ''--oem 3 --psm 6'') [0, 1] =
      map Inr [asc ''page one'', asc ''page two'']"
    by (simp add: w_scan_def)
  from text_acquisition_one_source [of w_text "[asc ''a.pdf'']" None]
       text_acquisition_one_source [of w_scan "[asc ''a.pdf'']" "Some ''/usr/bin''" "''/usr/bin''"
         "[0, 1]" "[asc ''page one'', asc ''page two'']"]
       w_text_structural [of "[asc ''a.pdf'']"] w_scan_structural [of "[asc ''a.pdf'']"] c o
  show ?thesis by (simp add: asc_def embedded_text_def)
qed

theorem text_acquisition_unconfigured_counterexample:
  "structural_text w_scan [asc ''a.pdf''] = Some (asc ''scan'') \<and>
   length (asc ''scan'') \<le> 30 \<and>
   extract_text_pdf None w_scan [asc ''a.pdf''] =
     ([], Inl (RuntimeError ''POPPLER_PATH is not set in .env''))"
  by (simp add: acq_defs w_scan_def)

text \<open>
  Claim C2. When the pattern of the number matches, the captured span consists of the
  characters \<open>0\<close> to \<open>9\<close>, the space and the hyphen. When the digits of the span
  (what \<open>\d\<close> matches in the stripped span; with a table that agrees with the Unicode
  database on these characters, exactly the characters \<open>0\<close> to \<open>9\<close> of the span, in
  order) are 15 or more, \<open>extract_client_info\<close> returns as number the first digit
  alone, then the next 14 digits in 7 pairs, all joined by single spaces: 8 groups made
  of the first 15 digits. The run on the digit string 748012345678901234 gives
  7 48 01 23 45 67 89 01, and a span with hyphens, 2-74-01-12-345-678-90, gives
  2 74 01 12 34 56 78 90.
\<close>

theorem identifier_regrouping:
  assumes "re_search U True num_re (clean_spaces U text) = Some m" and "m 1 = Some span"
    and "ds = filter (isdecimal U) (strip span)" and "15 \<le> length ds"
  shows "(\<exists>name. extract_client_info U text =
     Inr (name, Some [ds ! 0, 0x20, ds ! 1, ds ! 2, 0x20, ds ! 3, ds ! 4, 0x20, ds ! 5, ds ! 6,
                      0x20, ds ! 7, ds ! 8, 0x20, ds ! 9, ds ! 10, 0x20, ds ! 11, ds ! 12,
                      0x20, ds ! 13, ds ! 14])) \<and>
     (\<forall>c\<in>set span. (0x30 \<le> c \<and> c \<le> 0x39) \<or> c = 0x20 \<or> c = 0x2D) \<and>
     ((\<forall>c. 0x30 \<le> c \<and> c \<le> 0x39 \<longrightarrow> isdecimal U c) \<and>
      \<not> isdecimal U 0x20 \<and> \<not> isdecimal U 0x2D \<longrightarrow>
        ds = filter (\<lambda>c. 0x30 \<le> c \<and> c \<le> 0x39) span)"
proof (intro conjI impI)
  from assms(4) have len: "length (take 15 ds) = 15" by simp
  have d: "ds = re_sub_each U (NotIn [CatDigit]) (strip span)"
    by (simp add: assms(3) sub_not_digit)
  have "snd (client_number_of U text) =
     Inr (Some [ds ! 0, 0x20, ds ! 1, ds ! 2, 0x20, ds ! 3, ds ! 4, 0x20, ds ! 5, ds ! 6,
                      0x20, ds ! 7, ds ! 8, 0x20, ds ! 9, ds ! 10, 0x20, ds ! 11, ds ! 12,
                      0x20, ds ! 13, ds ! 14])"
    using assms(4)
    by (simp add: client_number_of_cases [OF assms(1,2)] d [symmetric] format_15 [OF len])
  moreover obtain name where "client_name_of U text = Inr name"
    using client_name_of_total by blast
  ultimately show "\<exists>name. extract_client_info U text =
     Inr (name, Some [ds ! 0, 0x20, ds ! 1, ds ! 2, 0x20, ds ! 3, ds ! 4, 0x20, ds ! 5, ds ! 6,
                      0x20, ds ! 7, ds ! 8, 0x20, ds ! 9, ds ! 10, 0x20, ds ! 11, ds ! 12,
                      0x20, ds ! 13, ds ! 14])"
    by (simp add: extract_client_info_def)
next
  show "\<forall>c\<in>set span. (0x30 \<le> c \<and> c \<le> 0x39) \<or> c = 0x20 \<or> c = 0x2D"
    using assms(1,2) by (rule num_span_chars)
next
  assume "(\<forall>c. 0x30 \<le> c \<and> c \<le> 0x39 \<longrightarrow> isdecimal U c) \<and>
      \<not> isdecimal U 0x20 \<and> \<not> isdecimal U 0x2D"
  with num_span_chars [OF assms(1,2)] show "ds = filter (\<lambda>c. 0x30 \<le> c \<and> c \<le> 0x39) span"
    unfolding assms(3) by (intro span_digits) simp_all
qed

theorem identifier_regrouping_witness:
  "re_search latin1 True num_re (clean_spaces latin1 sep_number_text) =
     Some [1 \<mapsto> asc ''2-74-01-12-345-678-90''] \<and>
   filter (isdecimal latin1) (strip (asc ''2-74-01-12-345-678-90'')) = asc ''274011234567890'' \<and>
   filter (\<lambda>c. 0x30 \<le> c \<and> c \<le> 0x39) (asc ''2-74-01-12-345-678-90'') = asc ''274011234567890'' \<and>
   extract_client_info latin1 sep_number_text = Inr (None, Some (asc ''2 74 01 12 34 56 78 90'')) \<and>
   re_search latin1 True num_re (clean_spaces latin1 number_text) =
     Some [1 \<mapsto> asc ''748012345678901234''] \<and>
   extract_client_info latin1 number_text = Inr (None, Some (asc ''7 48 01 23 45 67 89 01''))"
proof -
  have d1: "filter (isdecimal latin1) (strip (asc ''2-74-01-12-345-678-90'')) =
      asc ''274011234567890''"
    by (simp add: run_defs)
  have d2: "filter (isdecimal latin1) (strip (asc ''748012345678901234'')) =
      asc ''748012345678901234''"
    by (simp add: run_defs)
  have f: "filter (\<lambda>c. 0x30 \<le> c \<and> c \<le> 0x39) (asc ''2-74-01-12-345-678-90'') =
      asc ''274011234567890''"
    by (simp add: asc_def)
  have n1: "client_name_of latin1 sep_number_text = Inr None"
    by (simp add: sep_number_text_def run_defs)
  have n2: "client_name_of latin1 number_text = Inr None"
    by (simp add: number_text_def run_defs)
  from identifier_regrouping [OF sep_number_text_search _ d1 [symmetric]] n1
  have 1: "extract_client_info latin1 sep_number_text =
      Inr (None, Some (asc ''2 74 01 12 34 56 78 90''))"
    by (simp add: extract_client_info_def asc_def split: sum.splits)
  from identifier_regrouping [OF number_text_search _ d2 [symmetric]] n2
  have 2: "extract_client_info latin1 number_text =
      Inr (None, Some (asc ''7 48 01 23 45 67 89 01''))"
    by (simp add: extract_client_info_def asc_def split: sum.splits)
  from 1 2 d1 f sep_number_text_search number_text_search show ?thesis by simp
qed

text \<open>
  Claim C3, as amended. The first group of the person pattern has five alternatives:
  Monsieur, Madame, Mlle, M. and Enfant. For every text, the title that
  \<open>parse_ordonnance\<close> returns is null or equals one of these five up to the
  case-insensitive comparison of the pattern. The run on a text that starts with Enfant
  returns the title Enfant, which is none of Monsieur, Madame, Mlle and M.
\<close>

theorem person_title_one_of_five:
  "\<exists>r. parse_ordonnance U text = Inr r \<and>
     (title r = None \<or>
      (\<exists>w\<in>set [asc ''Monsieur'', asc ''Madame'', asc ''Mlle'', asc ''M.'', asc ''Enfant''].
         \<exists>u. title r = Some u \<and> list_all2 ci_eq w u))"
proof -
  obtain r where r: "parse_ordonnance U text = Inr r"
    and f: "case re_search U True person_re (clean_spaces U text) of
        None \<Rightarrow> title r = None \<and> full_name r = None \<and> birthdate r = None
      | Some m \<Rightarrow> (\<exists>a b c. m 1 = Some a \<and> m 2 = Some b \<and> m 3 = Some c \<and>
           title r = Some (strip a) \<and> full_name r = Some (strip b) \<and>
           birthdate r = Some (strip c))"
    using parse_ordonnance_fields [of U "text"] by blast
  show ?thesis
  proof (cases "re_search U True person_re (clean_spaces U text)")
    case None
    with f r show ?thesis by simp
  next
    case (Some m)
    with f obtain a where a: "m 1 = Some a" "title r = Some (strip a)" by auto
    from person_title_captured [OF Some] a(1) obtain w where
      w: "w \<in> set person_titles" "list_all2 ci_eq w a" by auto
    from title_no_space [OF w] have "strip a = a" by (rule strip_no_space)
    with a(2) w r show ?thesis by (auto simp: person_titles_def)
  qed
qed

theorem person_title_one_of_five_witness:
  "parse_ordonnance latin1 madame_date_text =
     Inr \<lparr>title = Some (asc ''MADAME''), full_name = Some (asc ''Dupont''),
          birthdate = Some (asc ''03/04/1980''), eye_right = None, eye_left = None\<rparr> \<and>
   list_all2 ci_eq (asc ''Madame'') (asc ''MADAME'')"
proof -
  have "list_all2 ci_eq (asc ''Madame'') (asc ''MADAME'')"
    by (simp add: asc_def ci_eq_def tolower_def ignorecase_fixes_def)
  with person_title_one_of_five [of latin1 madame_date_text] madame_date_text_run
  show ?thesis by simp
qed

theorem person_title_enfant_counterexample:
  "parse_ordonnance latin1 enfant_text =
     Inr \<lparr>title = Some (asc ''Enfant''), full_name = Some (asc ''Dupont''),
          birthdate = Some (asc ''01/02/2010''), eye_right = None, eye_left = None\<rparr> \<and>
   \<not> list_all2 ci_eq (asc ''Monsieur'') (asc ''Enfant'') \<and>
   \<not> list_all2 ci_eq (asc ''Madame'') (asc ''Enfant'') \<and>
   \<not> list_all2 ci_eq (asc ''Mlle'') (asc ''Enfant'') \<and>
   \<not> list_all2 ci_eq (asc ''M.'') (asc ''Enfant'')"
  using enfant_text_run
  by (simp add: asc_def ci_eq_def tolower_def ignorecase_fixes_def)

text \<open>
  Claim C4. For every text, \<open>parse_ordonnance\<close> returns title, full name and birth date
  all null (exactly when the person pattern does not match) or all non-null. They are
  non-null only if the text, after the cleaning of its spaces, contains a parenthesized
  date: an opening parenthesis, two digits, a slash, two digits, a slash, four digits
  and a closing parenthesis. A text without an opening parenthesis, such as Madame
  Dupont alone, gives the three nulls.
\<close>

theorem person_pattern_atomic:
  "\<exists>r. parse_ordonnance U text = Inr r \<and>
     ((title r = None \<and> full_name r = None \<and> birthdate r = None \<and>
       re_search U True person_re (clean_spaces U text) = None) \<or>
      (title r \<noteq> None \<and> full_name r \<noteq> None \<and> birthdate r \<noteq> None \<and>
       re_search U True person_re (clean_spaces U text) \<noteq> None)) \<and>
     (title r \<noteq> None \<longrightarrow>
        (\<exists>pre a b c post.
           clean_spaces U text = pre @ [0x28] @ a @ [0x2F] @ b @ [0x2F] @ c @ [0x29] @ post \<and>
           length a = 2 \<and> length b = 2 \<and> length c = 4 \<and>
           (\<forall>x\<in>set (a @ b @ c). isdecimal U x))) \<and>
     (0x28 \<notin> set text \<longrightarrow> title r = None \<and> full_name r = None \<and> birthdate r = None)"
proof -
  obtain r where r: "parse_ordonnance U text = Inr r"
    and f: "case re_search U True person_re (clean_spaces U text) of
        None \<Rightarrow> title r = None \<and> full_name r = None \<and> birthdate r = None
      | Some m \<Rightarrow> (\<exists>a b c. m 1 = Some a \<and> m 2 = Some b \<and> m 3 = Some c \<and>
           title r = Some (strip a) \<and> full_name r = Some (strip b) \<and>
           birthdate r = Some (strip c))"
    using parse_ordonnance_fields [of U "text"] by blast
  show ?thesis
  proof (cases "re_search U True person_re (clean_spaces U text)")
    case None
    with f r show ?thesis by simp
  next
    case (Some m)
    from person_needs_paren [OF Some] have p: "0x28 \<in> set text" .
    from person_needs_date [OF Some] have
      "\<exists>pre a b c post.
           clean_spaces U text = pre @ [0x28] @ a @ [0x2F] @ b @ [0x2F] @ c @ [0x29] @ post \<and>
           length a = 2 \<and> length b = 2 \<and> length c = 4 \<and>
           (\<forall>x\<in>set (a @ b @ c). isdecimal U x)" .
    moreover from Some f have "title r \<noteq> None \<and> full_name r \<noteq> None \<and> birthdate r \<noteq> None"
      by auto
    ultimately show ?thesis using r p Some by (intro exI [of _ r]) simp
  qed
qed

theorem person_pattern_atomic_witness:
  "0x28 \<notin> set madame_text \<and>
   parse_ordonnance latin1 madame_text =
     Inr \<lparr>title = None, full_name = None, birthdate = None, eye_right = None, eye_left = None\<rparr> \<and>
   parse_ordonnance latin1 madame_date_text =
     Inr \<lparr>title = Some (asc ''MADAME''), full_name = Some (asc ''Dupont''),
          birthdate = Some (asc ''03/04/1980''), eye_right = None, eye_left = None\<rparr>"
proof -
  have "0x28 \<notin> set madame_text" by (simp add: madame_text_def asc_def)
  with person_pattern_atomic [of latin1 madame_text] madame_text_run madame_date_text_run
  show ?thesis by simp
qed

text \<open>
  Claim C5. For each eye, the field is null when its pattern does not match, and
  otherwise it is the captured value with every comma replaced by a dot, so that no
  stored value contains a comma. The run below stores -1,25 as -1.25 and keeps +0.50.
\<close>

theorem eye_decimal_normalisation:
  "\<exists>r. parse_ordonnance U text = Inr r \<and>
     (case re_search U True (eye_re (asc ''Droit'')) (clean_spaces U text) of
        None \<Rightarrow> eye_right r = None
      | Some m \<Rightarrow> (\<exists>v. m 1 = Some v \<and>
           eye_right r = Some (map (\<lambda>c. if c = 0x2C then 0x2E else c) v))) \<and>
     (case re_search U True (eye_re (asc ''Gauche'')) (clean_spaces U text) of
        None \<Rightarrow> eye_left r = None
      | Some m \<Rightarrow> (\<exists>v. m 1 = Some v \<and>
           eye_left r = Some (map (\<lambda>c. if c = 0x2C then 0x2E else c) v))) \<and>
     (\<forall>v. eye_right r = Some v \<longrightarrow> 0x2C \<notin> set v) \<and>
     (\<forall>v. eye_left r = Some v \<longrightarrow> 0x2C \<notin> set v)"
proof -
  obtain r where r: "parse_ordonnance U text = Inr r"
    and f: "case re_search U True (eye_re (asc ''Droit'')) (clean_spaces U text) of
        None \<Rightarrow> eye_right r = None
      | Some m \<Rightarrow> (\<exists>v. m 1 = Some v \<and> eye_right r = Some (replace 0x2C 0x2E v))"
      "case re_search U True (eye_re (asc ''Gauche'')) (clean_spaces U text) of
        None \<Rightarrow> eye_left r = None
      | Some m \<Rightarrow> (\<exists>v. m 1 = Some v \<and> eye_left r = Some (replace 0x2C 0x2E v))"
    using parse_ordonnance_fields [of U "text"] by blast
  have c: "0x2C \<notin> set (replace 0x2C 0x2E v)" for v
    by (rule replace_removes) simp
  have "\<forall>v. eye_right r = Some v \<longrightarrow> 0x2C \<notin> set v"
    using f(1) c by (auto split: option.splits)
  moreover have "\<forall>v. eye_left r = Some v \<longrightarrow> 0x2C \<notin> set v"
    using f(2) c by (auto split: option.splits)
  ultimately show ?thesis
    using r f by (auto simp: replace_def split: option.splits)
qed

theorem eye_decimal_normalisation_witness:
  "parse_ordonnance latin1 eyes_text =
     Inr \<lparr>title = None, full_name = None, birthdate = None,
          eye_right = Some (asc ''-1.25''), eye_left = Some (asc ''+0.50'')\<rparr> \<and>
   re_search latin1 True (eye_re (asc ''Droit'')) (clean_spaces latin1 eyes_text) =
     Some [1 \<mapsto> asc ''-1,25''] \<and>
   re_search latin1 True (eye_re (asc ''Gauche'')) (clean_spaces latin1 eyes_text) =
     Some [1 \<mapsto> asc ''+0.50''] \<and>
   parse_ordonnance latin1 eyes_text_left =
     Inr \<lparr>title = None, full_name = None, birthdate = None,
          eye_right = None, eye_left = Some (asc ''-1.25'')\<rparr>"
proof -
  have "re_search latin1 True (eye_re (asc ''Droit'')) (clean_spaces latin1 eyes_text) =
     Some [1 \<mapsto> asc ''-1,25'']"
    by (simp add: eyes_text_def run_defs)
  moreover have "re_search latin1 True (eye_re (asc ''Gauche'')) (clean_spaces latin1 eyes_text) =
     Some [1 \<mapsto> asc ''+0.50'']"
    by (simp add: eyes_text_def run_defs)
  ultimately show ?thesis
    using eye_decimal_normalisation [of latin1 eyes_text] eyes_text_run eyes_text_left_run
    by simp
qed

text \<open>
  Claim C6. When the pattern of the number matches and the captured span has fewer than
  15 digits, \<open>extract_client_info\<close> returns as number the captured span itself with every
  character other than \<open>0\<close> to \<open>9\<close> and the space removed, and the result stripped: the
  spacing inside the span is kept and no pairs are formed.
\<close>

theorem short_identifier_best_effort:
  assumes "re_search U True num_re (clean_spaces U text) = Some m" and "m 1 = Some span"
    and "length (re_sub_each U (NotIn [CatDigit]) (strip span)) < 15"
  shows "\<exists>name. extract_client_info U text =
     Inr (name, Some (strip (filter (\<lambda>c. (0x30 \<le> c \<and> c \<le> 0x39) \<or> c = 0x20) span)))"
proof -
  have "snd (client_number_of U text) =
     Inr (Some (strip (filter (\<lambda>c. (0x30 \<le> c \<and> c \<le> 0x39) \<or> c = 0x20) span)))"
    using assms(3) by (simp add: client_number_of_cases [OF assms(1,2)] Let_def)
  moreover obtain name where "client_name_of U text = Inr name"
    using client_name_of_total by blast
  ultimately show ?thesis by (simp add: extract_client_info_def)
qed

theorem short_identifier_best_effort_witness:
  "re_search latin1 True num_re (clean_spaces latin1 short_number_text) =
     Some [1 \<mapsto> asc ''2 74 01 12-345 ''] \<and>
   length (re_sub_each latin1 (NotIn [CatDigit]) (strip (asc ''2 74 01 12-345 ''))) < 15 \<and>
   extract_client_info latin1 short_number_text = Inr (None, Some (asc ''2 74 01 12345''))"
proof -
  have d: "length (re_sub_each latin1 (NotIn [CatDigit]) (strip (asc ''2 74 01 12-345 ''))) < 15"
    by (simp add: run_defs)
  have n: "client_name_of latin1 short_number_text = Inr None"
    by (simp add: short_number_text_def run_defs)
  have f: "strip (filter (\<lambda>c. (0x30 \<le> c \<and> c \<le> 0x39) \<or> c = 0x20) (asc ''2 74 01 12-345 '')) =
      asc ''2 74 01 12345''"
    by (simp add: run_defs)
  from short_identifier_best_effort [OF short_number_text_search _ d] n f
  have "extract_client_info latin1 short_number_text = Inr (None, Some (asc ''2 74 01 12345''))"
    by (simp add: extract_client_info_def split: sum.splits)
  with short_number_text_search d show ?thesis by simp
qed

text \<open>
  Claim C7. For every text, \<open>extract_client_info\<close> returns a pair and
  \<open>parse_ordonnance\<close> returns a record: neither raises. A field of the result is null
  exactly when the pattern of that field does not match.
\<close>

theorem extractors_total:
  "(\<exists>name number. extract_client_info U text = Inr (name, number) \<and>
     (number = None \<longleftrightarrow> re_search U True num_re (clean_spaces U text) = None) \<and>
     (name = None \<longleftrightarrow> re_search U True name_re text = None)) \<and>
   (\<exists>r. parse_ordonnance U text = Inr r \<and>
     (title r = None \<longleftrightarrow> re_search U True person_re (clean_spaces U text) = None) \<and>
     (full_name r = None \<longleftrightarrow> re_search U True person_re (clean_spaces U text) = None) \<and>
     (birthdate r = None \<longleftrightarrow> re_search U True person_re (clean_spaces U text) = None) \<and>
     (eye_right r = None \<longleftrightarrow>
        re_search U True (eye_re (asc ''Droit'')) (clean_spaces U text) = None) \<and>
     (eye_left r = None \<longleftrightarrow>
        re_search U True (eye_re (asc ''Gauche'')) (clean_spaces U text) = None))"
proof
  show "\<exists>name number. extract_client_info U text = Inr (name, number) \<and>
     (number = None \<longleftrightarrow> re_search U True num_re (clean_spaces U text) = None) \<and>
     (name = None \<longleftrightarrow> re_search U True name_re text = None)"
    by (rule client_extractor_total)
next
  show "\<exists>r. parse_ordonnance U text = Inr r \<and>
     (title r = None \<longleftrightarrow> re_search U True person_re (clean_spaces U text) = None) \<and>
     (full_name r = None \<longleftrightarrow> re_search U True person_re (clean_spaces U text) = None) \<and>
     (birthdate r = None \<longleftrightarrow> re_search U True person_re (clean_spaces U text) = None) \<and>
     (eye_right r = None \<longleftrightarrow>
        re_search U True (eye_re (asc ''Droit'')) (clean_spaces U text) = None) \<and>
     (eye_left r = None \<longleftrightarrow>
        re_search U True (eye_re (asc ''Gauche'')) (clean_spaces U text) = None)"
    by (simp add: parse_ordonnance_eq)
qed

theorem extractors_total_witness:
  "extract_client_info latin1 madame_text = Inr (None, None) \<and>
   parse_ordonnance latin1 madame_text =
     Inr \<lparr>title = None, full_name = None, birthdate = None, eye_right = None, eye_left = None\<rparr> \<and>
   extract_client_info latin1 number_text = Inr (None, Some (asc ''7 48 01 23 45 67 89 01''))"
proof -
  have a: "extract_client_info latin1 madame_text = Inr (None, None)"
    by (simp add: madame_text_def run_defs)
  have b: "extract_client_info latin1 number_text = Inr (None, Some (asc ''7 48 01 23 45 67 89 01''))"
    by (simp add: number_text_def run_defs)
  from extractors_total [of latin1 madame_text] a b madame_text_run show ?thesis by simp
qed

text \<open>
  Claim C8. \<open>extract_text_pdf\<close> raises its configuration error (the \<open>RuntimeError\<close> of
  its own) exactly when the OCR branch is reached (the structural extraction failed or
  gave 30 characters or fewer) and \<open>POPPLER_PATH\<close> is unset or empty. A structural text
  of more than 30 characters is returned whatever \<open>POPPLER_PATH\<close> is. When the error is
  raised, no collaborator was called and no text is returned. An exception of the
  rasterizer or of the OCR engine is a different error.
\<close>

theorem configuration_error_iff:
  "(snd (extract_text_pdf POPPLER_PATH w pdf_path) =
       Inl (RuntimeError ''POPPLER_PATH is not set in .env'')
      \<longleftrightarrow> (case structural_text w pdf_path of None \<Rightarrow> True | Some s \<Rightarrow> length s \<le> 30) \<and>
          (POPPLER_PATH = None \<or> POPPLER_PATH = Some [])) \<and>
   (\<forall>s. structural_text w pdf_path = Some s \<and> 30 < length s \<longrightarrow>
      snd (extract_text_pdf POPPLER_PATH w pdf_path) = Inr s) \<and>
   (snd (extract_text_pdf POPPLER_PATH w pdf_path) =
       Inl (RuntimeError ''POPPLER_PATH is not set in .env'')
      \<longrightarrow> fst (extract_text_pdf POPPLER_PATH w pdf_path) = [] \<and>
          (\<forall>s. snd (extract_text_pdf POPPLER_PATH w pdf_path) \<noteq> Inr s))"
proof -
  let ?err = "Inl (RuntimeError ''POPPLER_PATH is not set in .env'') :: error + str"
  have unset: "ocr_fallback POPPLER_PATH w pdf_path = ([], ?err)"
    if "POPPLER_PATH = None \<or> POPPLER_PATH = Some []"
    using that by (rule ocr_fallback_unset)
  have conf: "snd (ocr_fallback POPPLER_PATH w pdf_path) \<noteq> ?err"
    if "\<not> (POPPLER_PATH = None \<or> POPPLER_PATH = Some [])"
  proof -
    from that obtain pp where "POPPLER_PATH = Some pp" "pp \<noteq> []" by (cases POPPLER_PATH) auto
    then show ?thesis by (rule ocr_fallback_configured)
  qed
  show ?thesis
  proof (cases "structural_text w pdf_path")
    case None
    then have e: "extract_text_pdf POPPLER_PATH w pdf_path = ocr_fallback POPPLER_PATH w pdf_path"
      by (simp add: extract_text_pdf_def)
    show ?thesis
      using None unset conf unfolding e
      by (cases "POPPLER_PATH = None \<or> POPPLER_PATH = Some []") auto
  next
    case (Some s)
    show ?thesis
    proof (cases "30 < length s")
      case True
      with Some show ?thesis by (simp add: extract_text_pdf_def)
    next
      case False
      with Some have e: "extract_text_pdf POPPLER_PATH w pdf_path =
          ocr_fallback POPPLER_PATH w pdf_path"
        by (simp add: extract_text_pdf_def)
      show ?thesis
        using Some False unset conf unfolding e
        by (cases "POPPLER_PATH = None \<or> POPPLER_PATH = Some []") auto
    qed
  qed
qed

theorem configuration_error_iff_witness:
  "extract_text_pdf (Some []) w_scan [asc ''a.pdf''] =
     ([], Inl (RuntimeError ''POPPLER_PATH is not set in .env'')) \<and>
   snd (extract_text_pdf None w_text [asc ''a.pdf'']) =
     Inr embedded_text \<and>
   snd (extract_text_pdf (Some ''/usr/bin'') w_text [asc ''a.pdf'']) =
     Inr embedded_text \<and>
   snd (extract_text_pdf (Some ''/usr/bin'') w_scan [asc ''a.pdf'']) =
     Inr (asc ''page one'' @ [0x0A] @ asc ''page two'')"
proof -
  have 1: "snd (extract_text_pdf (Some ''/usr/bin'') w_scan [asc ''a.pdf'']) =
     Inr (asc ''page one'' @ [0x0A] @ asc ''page two'')"
    by (simp add: acq_defs w_scan_def)
  from configuration_error_iff [of "Some []" w_scan "[asc ''a.pdf'']"]
       configuration_error_iff [of None w_text "[asc ''a.pdf'']"]
       configuration_error_iff [of "Some ''/usr/bin''" w_text "[asc ''a.pdf'']"]
       w_text_structural [of "[asc ''a.pdf'']"] w_scan_structural [of "[asc ''a.pdf'']"] 1
  show ?thesis by (simp add: asc_def prod_eq_iff embedded_text_def)
qed




text \<open>
  Claim C10. \<open>format_number_2digit_groups\<close> raises \<open>IndexError\<close> on the empty string,
  but every argument that \<open>extract_client_info\<close> passes to it is a string of exactly 15
  digits, on which it returns; so \<open>extract_client_info\<close> never raises \<open>IndexError\<close>.
\<close>

theorem format_call_sites_safe:
  "format_number_2digit_groups [] = Inl IndexError \<and>
   (\<forall>digits\<in>set (fst (client_number_of U text)).
      length digits = 15 \<and> (\<forall>c\<in>set digits. isdecimal U c) \<and>
      (\<exists>formatted. format_number_2digit_groups digits = Inr formatted)) \<and>
   extract_client_info U text \<noteq> Inl IndexError"
proof (intro conjI)
  show "format_number_2digit_groups [] = Inl IndexError"
    by (simp add: format_number_2digit_groups_def)
next
  obtain number name where "snd (client_number_of U text) = Inr number"
    "client_name_of U text = Inr name"
    using client_number_of_total client_name_of_total by blast
  then show "extract_client_info U text \<noteq> Inl IndexError"
    by (simp add: extract_client_info_def)
next
  show "\<forall>digits\<in>set (fst (client_number_of U text)).
      length digits = 15 \<and> (\<forall>c\<in>set digits. isdecimal U c) \<and>
      (\<exists>formatted. format_number_2digit_groups digits = Inr formatted)"
  proof
  fix digits assume a: "digits \<in> set (fst (client_number_of U text))"
  have b: "length digits = 15 \<and> (\<forall>c\<in>set digits. isdecimal U c)"
  proof (cases "re_search U True num_re (clean_spaces U text)")
    case None
    with a show ?thesis by (simp add: client_number_of_def)
  next
    case (Some m)
    with re_search_group [OF Some num_re_group] obtain span where span: "m 1 = Some span" by auto
    from a have "15 \<le> length (filter (isdecimal U) (strip span)) \<and>
        digits = take 15 (filter (isdecimal U) (strip span))"
      by (simp add: client_number_of_cases [OF Some span] Let_def sub_not_digit split: if_splits)
    then show ?thesis by (auto dest: in_set_takeD)
  qed
  then have "digits \<noteq> []" by auto
  then have "\<exists>formatted. format_number_2digit_groups digits = Inr formatted"
    by (rule format_nonempty)
  with b show "length digits = 15 \<and> (\<forall>c\<in>set digits. isdecimal U c) \<and>
      (\<exists>formatted. format_number_2digit_groups digits = Inr formatted)" by simp
  qed
qed

theorem format_call_sites_safe_witness:
  "fst (client_number_of latin1 number_text) = [asc ''748012345678901''] \<and>
   length (asc ''748012345678901'') = 15 \<and>
   format_number_2digit_groups (asc ''748012345678901'') = Inr (asc ''7 48 01 23 45 67 89 01'') \<and>
   format_number_2digit_groups [] = Inl IndexError"
proof -
  have c: "fst (client_number_of latin1 number_text) = [asc ''748012345678901'']"
    by (simp add: client_number_of_cases [OF number_text_search] Let_def) (simp add: run_defs)
  have f: "format_number_2digit_groups (asc ''748012345678901'') = Inr (asc ''7 48 01 23 45 67 89 01'')"
    by (simp add: asc_def format_15_explicit)
  from format_call_sites_safe [of latin1 number_text] c f show ?thesis
    by (simp add: asc_def)
qed

end
